theory Spec2Isabelle
  imports Complex_Main "HOL-Library.Code_Target_Nat"
begin

section \<open>Values handled by the transformer\<close>

text \<open>
  The rules of \<^verbatim>\<open>DictTransformer\<close> receive the already transformed children of a
  node as a Python list \<^verbatim>\<open>args\<close>.  A child is any Python object the rules produce:
  \<^verbatim>\<open>None\<close>, a bool, an int, a float, a \<^verbatim>\<open>str\<close> (a lark \<^verbatim>\<open>Token\<close> is a \<^verbatim>\<open>str\<close>), a
  list, a dict, an \<^verbatim>\<open>Attribute(key, value)\<close> named tuple, or lark's \<^verbatim>\<open>Discard\<close>
  sentinel.  A dict is kept as the list of its items in insertion order, which is the
  order \<^verbatim>\<open>.items()\<close> yields.  The payload of a float is never inspected.
\<close>

datatype pyval =
    PNone
  | PBool bool
  | PInt int
  | PFloat real
  | PStr string
  | PList "pyval list"
  | PDict "(pyval \<times> pyval) list"
  | PAttribute string pyval
  | PDiscard

datatype error =
    IndexError
  | ValueError
  | TypeError
  | AttributeError
  | RuntimeError string

text \<open>The two characters the source writes as \<^verbatim>\<open>'"'\<close> and \<^verbatim>\<open>"\n"\<close>.\<close>

definition dquote :: char where
  "dquote = CHR 0x22"

definition newline :: char where
  "newline = CHR 0x0A"

subsection \<open>Python built-ins used by the rules\<close>

text \<open>
  \<^verbatim>\<open>str(x)\<close>: a \<^verbatim>\<open>str\<close> (or \<^verbatim>\<open>Token\<close>) is returned with the same characters.  What
  \<^verbatim>\<open>str\<close> prints for any other object is Python's \<^verbatim>\<open>repr\<close> machinery, which is not part
  of the repository; it is the parameter \<open>rp\<close>.
\<close>

definition py_str :: "(pyval \<Rightarrow> string) \<Rightarrow> pyval \<Rightarrow> string" where
  "py_str rp v = (case v of PStr s \<Rightarrow> s | _ \<Rightarrow> rp v)"

definition startswith :: "string \<Rightarrow> string \<Rightarrow> bool" where
  "startswith s p = (take (length p) s = p)"

definition endswith :: "string \<Rightarrow> string \<Rightarrow> bool" where
  "endswith s p = (length p \<le> length s \<and> drop (length s - length p) s = p)"

text \<open>The slice \<^verbatim>\<open>s[1:-1]\<close>: indices \<open>1\<close> to \<open>len(s) - 2\<close>, empty when \<open>len(s) \<le> 2\<close>.\<close>

definition slice_1_m1 :: "'a list \<Rightarrow> 'a list" where
  "slice_1_m1 s = butlast (tl s)"

text \<open>\<^verbatim>\<open>sep.join(xs)\<close>\<close>

fun py_join :: "string \<Rightarrow> string list \<Rightarrow> string" where
  "py_join sep [] = []"
| "py_join sep [x] = x"
| "py_join sep (x # y # ys) = x @ sep @ py_join sep (y # ys)"

text \<open>
  A list or a dict is unhashable, and a tuple is hashable when its items are: building
  a dict with an unhashable key raises \<^verbatim>\<open>TypeError\<close>.
\<close>

fun hashable :: "pyval \<Rightarrow> bool" where
  "hashable (PList _) = False"
| "hashable (PDict _) = False"
| "hashable (PAttribute _ v) = hashable v"
| "hashable _ = True"

section \<open>The quoting helpers\<close>

text \<open>
  \<^verbatim>\<open>
  def to_string_dollar(self, value):
      if isinstance(value, str):
          if value.startswith('"') and value.endswith('"'):
              return str(value)[1:-1]
          return f"${{{value}}}"
      return value
  \<close>
\<close>

fun to_string_dollar :: "pyval \<Rightarrow> pyval" where
  "to_string_dollar (PStr v) =
     (if startswith v [dquote] \<and> endswith v [dquote] then PStr (slice_1_m1 v)
      else PStr (''${'' @ v @ ''}''))"
| "to_string_dollar v = v"

text \<open>
  \<^verbatim>\<open>
  def strip_quotes(self, value):
      if isinstance(value, str):
          if value.startswith('"') and value.endswith('"'):
              return str(value)[1:-1]
      return value
  \<close>
\<close>

fun strip_quotes :: "pyval \<Rightarrow> pyval" where
  "strip_quotes (PStr v) =
     (if startswith v [dquote] \<and> endswith v [dquote] then PStr (slice_1_m1 v)
      else PStr v)"
| "strip_quotes v = v"

text \<open>
  \<^verbatim>\<open>
  def strip_new_line_tokens(self, args):
      return [arg for arg in args if arg != "\n" and arg is not Discard]
  \<close>
  Only a \<^verbatim>\<open>str\<close> with the one character \<^verbatim>\<open>\n\<close> compares equal to \<^verbatim>\<open>"\n"\<close>.
\<close>

definition strip_new_line_tokens :: "pyval list \<Rightarrow> pyval list" where
  "strip_new_line_tokens args = filter (\<lambda>arg. arg \<noteq> PStr [newline] \<and> arg \<noteq> PDiscard) args"

section \<open>The rules that call \<^verbatim>\<open>to_string_dollar\<close>\<close>

text \<open>
  \<^verbatim>\<open>
  def attribute(self, args):
      key = str(args[0])
      if key.startswith('"') and key.endswith('"'):
          key = key[1:-1]
      value = self.to_string_dollar(args[1])
      return Attribute(key, value)
  \<close>
\<close>

fun attribute :: "(pyval \<Rightarrow> string) \<Rightarrow> pyval list \<Rightarrow> error + pyval" where
  "attribute rp (a0 # a1 # _) =
     (let key = py_str rp a0;
          key = (if startswith key [dquote] \<and> endswith key [dquote] then slice_1_m1 key else key)
      in Inr (PAttribute key (to_string_dollar a1)))"
| "attribute rp _ = Inl IndexError"

text \<open>
  \<^verbatim>\<open>
  def tuple(self, args):
      return [self.to_string_dollar(arg) for arg in self.strip_new_line_tokens(args)]
  \<close>
\<close>

definition tuple :: "pyval list \<Rightarrow> pyval" where
  "tuple args = PList (map to_string_dollar (strip_new_line_tokens args))"

text \<open>
  \<^verbatim>\<open>
  def object_elem(self, args):
      key = self.strip_quotes(args[0])
      value = self.to_string_dollar(args[1])
      return {key: value}
  \<close>
\<close>

fun object_elem :: "pyval list \<Rightarrow> error + pyval" where
  "object_elem (a0 # a1 # _) =
     (let key = strip_quotes a0; v = to_string_dollar a1
      in if hashable key then Inr (PDict [(key, v)]) else Inl TypeError)"
| "object_elem _ = Inl IndexError"

section \<open>Blocks\<close>

text \<open>
  The part of lark's \<^verbatim>\<open>Meta\<close> that \<^verbatim>\<open>block\<close> reads: \<^verbatim>\<open>meta.line\<close> and \<^verbatim>\<open>meta.end_line\<close>.
\<close>

record meta =
  meta_line :: int
  meta_end_line :: int

definition START_LINE :: string where
  "START_LINE = ''__start_line__''"

definition END_LINE :: string where
  "END_LINE = ''__end_line__''"

text \<open>
  \<^verbatim>\<open>d[k] = v\<close> for a \<^verbatim>\<open>str\<close> key \<open>k\<close>: the value of an existing key is replaced where it
  stands, a new key goes to the end.  \<^verbatim>\<open>k in d\<close> and \<^verbatim>\<open>d[k]\<close> are \<open>dict_get\<close>.
\<close>

fun dict_set :: "(pyval \<times> pyval) list \<Rightarrow> string \<Rightarrow> pyval \<Rightarrow> (pyval \<times> pyval) list" where
  "dict_set [] k v = [(PStr k, v)]"
| "dict_set ((k', v') # d) k v =
     (if k' = PStr k then (k', v) # d else (k', v') # dict_set d k v)"

definition dict_get :: "(pyval \<times> pyval) list \<Rightarrow> string \<Rightarrow> pyval option" where
  "dict_get d k = map_of d (PStr k)"

text \<open>
  The loop \<^verbatim>\<open>for label in reversed(block_labels): result = {strip_quotes(label): result}\<close>,
  over the labels already reversed.
\<close>

fun wrap_labels :: "pyval list \<Rightarrow> pyval \<Rightarrow> error + pyval" where
  "wrap_labels [] result = Inr result"
| "wrap_labels (label # labels) result =
     (let label_str = strip_quotes label
      in if hashable label_str then wrap_labels labels (PDict [(label_str, result)])
         else Inl TypeError)"

text \<open>
  \<^verbatim>\<open>
  @v_args(meta=True)
  def block(self, meta, args):
      *block_labels, block_body = args
      result = block_body
      if self.with_meta:
          result.update({START_LINE: meta.line, END_LINE: meta.end_line})
      for label in reversed(block_labels):
          label_str = self.strip_quotes(label)
          result = {label_str: result}
      return result
  \<close>
  The unpacking raises \<^verbatim>\<open>ValueError\<close> on an empty list; \<^verbatim>\<open>.update\<close> exists on a dict
  only.
\<close>

definition block :: "bool \<Rightarrow> meta \<Rightarrow> pyval list \<Rightarrow> error + pyval" where
  "block with_meta m args =
     (if args = [] then Inl ValueError
      else
        let block_labels = butlast args; block_body = last args
        in if with_meta then
             (case block_body of
                PDict d \<Rightarrow>
                  wrap_labels (rev block_labels)
                    (PDict (dict_set (dict_set d START_LINE (PInt (meta_line m)))
                              END_LINE (PInt (meta_end_line m))))
              | _ \<Rightarrow> Inl AttributeError)
           else wrap_labels (rev block_labels) block_body)"

section \<open>Bodies\<close>

text \<open>
  The state of the loop of \<^verbatim>\<open>body\<close>: the dict \<^verbatim>\<open>result\<close>, the set \<^verbatim>\<open>attributes\<close>, and
  the messages passed to \<^verbatim>\<open>logging.warning\<close> so far.
\<close>

record body_state =
  result :: "(pyval \<times> pyval) list"
  attributes :: "string set"
  warnings :: "string list"

definition attribute_warning :: "string \<Rightarrow> string" where
  "attribute_warning key = key @ '' already defined in attribute, ignoring''"

definition block_warning :: "string \<Rightarrow> string" where
  "block_warning key = key @ '' already defined in block, ignoring''"

text \<open>
  The inner loop, over the items of one block's dict:
  \<^verbatim>\<open>
  for key, value in arg.items():
      key = str(key)
      if key in result:
          if key in attributes:
              logging.warning(f"{key} already defined in block, ignoring")
              continue
          result[key].append(value)
      else:
          result[key] = [value]
  \<close>
  \<^verbatim>\<open>.append\<close> exists on a list only.
\<close>

fun body_items ::
  "(pyval \<Rightarrow> string) \<Rightarrow> (pyval \<times> pyval) list \<Rightarrow> body_state \<Rightarrow> error + body_state" where
  "body_items rp [] s = Inr s"
| "body_items rp ((k, v) # items) s =
     (let key = py_str rp k in
      case dict_get (result s) key of
        Some cur \<Rightarrow>
          if key \<in> attributes s then
            body_items rp items (s\<lparr>warnings := warnings s @ [block_warning key]\<rparr>)
          else
            (case cur of
               PList xs \<Rightarrow> body_items rp items (s\<lparr>result := dict_set (result s) key (PList (xs @ [v]))\<rparr>)
             | _ \<Rightarrow> Inl AttributeError)
      | None \<Rightarrow> body_items rp items (s\<lparr>result := dict_set (result s) key (PList [v])\<rparr>))"

text \<open>
  The outer loop:
  \<^verbatim>\<open>
  for arg in args:
      if isinstance(arg, Attribute):
          if arg.key in result:
              logging.warning(f"{arg.key} already defined in attribute, ignoring")
              continue
          result[arg.key] = arg.value
          attributes.add(arg.key)
      else:
          for key, value in arg.items(): ...
  \<close>
  \<^verbatim>\<open>.items\<close> exists on a dict only.
\<close>

fun body_loop :: "(pyval \<Rightarrow> string) \<Rightarrow> pyval list \<Rightarrow> body_state \<Rightarrow> error + body_state" where
  "body_loop rp [] s = Inr s"
| "body_loop rp (PAttribute key v # args) s =
     (case dict_get (result s) key of
        Some _ \<Rightarrow> body_loop rp args (s\<lparr>warnings := warnings s @ [attribute_warning key]\<rparr>)
      | None \<Rightarrow>
          body_loop rp args
            (s\<lparr>result := dict_set (result s) key v, attributes := insert key (attributes s)\<rparr>))"
| "body_loop rp (PDict items # args) s =
     (case body_items rp items s of
        Inl e \<Rightarrow> Inl e
      | Inr s' \<Rightarrow> body_loop rp args s')"
| "body_loop rp (_ # args) s = Inl AttributeError"

text \<open>
  \<^verbatim>\<open>
  def body(self, args):
      args = self.strip_new_line_tokens(args)
      attributes = set()
      result = {}
      for arg in args: ...
      return result
  \<close>
  The model returns the dict together with the warnings the call has logged.
\<close>

definition body :: "(pyval \<Rightarrow> string) \<Rightarrow> pyval list \<Rightarrow> error + (pyval \<times> string list)" where
  "body rp args =
     (case body_loop rp (strip_new_line_tokens args)
             \<lparr>result = [], attributes = {}, warnings = []\<rparr> of
        Inl e \<Rightarrow> Inl e
      | Inr s \<Rightarrow> Inr (PDict (result s), warnings s))"

section \<open>For expressions\<close>

text \<open>
  \<^verbatim>\<open>
  def for_object_expr(self, args):
      args = self.strip_new_line_tokens(args)
      for_expr = " ".join([str(arg) for arg in args[1:-1]])
      # doubled curly braces stands for inlining the braces
      # and the third pair of braces is for the interpolation
      # e.g. f"{2 + 2} {{2 + 2}}" == "4 {2 + 2}"
      return f"{{{for_expr}}}"
  \<close>
  In the f-string, \<^verbatim>\<open>{{\<close> is one literal \<^verbatim>\<open>{\<close>, \<^verbatim>\<open>{for_expr}\<close> is the interpolation and
  \<^verbatim>\<open>}}\<close> is one literal \<^verbatim>\<open>}\<close>.
\<close>

definition for_object_expr :: "(pyval \<Rightarrow> string) \<Rightarrow> pyval list \<Rightarrow> pyval" where
  "for_object_expr rp args =
     (let args = strip_new_line_tokens args;
          for_expr = py_join '' '' (map (py_str rp) (slice_1_m1 args))
      in PStr (''{'' @ for_expr @ ''}''))"

section \<open>Heredocs\<close>

text \<open>
  \<^verbatim>\<open>
  HEREDOC_PATTERN = re.compile(r"<<([a-zA-Z][a-zA-Z0-9._-]+)\n([\s\S]*)\1", re.S)
  HEREDOC_TRIM_PATTERN = re.compile(r"<<-([a-zA-Z][a-zA-Z0-9._-]+)\n([\s\S]*)\1", re.S)
  \<close>
  The two patterns differ in the literal they start with.  \<^verbatim>\<open>pattern.match(s)\<close> matches
  at the start of \<open>s\<close> (not necessarily to its end) the way a backtracking matcher does:
  a greedy repetition first takes as many characters as it can and gives them back one at
  a time while the rest of the pattern fails.
\<close>

definition is_alpha :: "char \<Rightarrow> bool" where
  "is_alpha c \<longleftrightarrow> c \<in> set (''abcdefghijklmnopqrstuvwxyz'' @ ''ABCDEFGHIJKLMNOPQRSTUVWXYZ'')"

definition is_delim_char :: "char \<Rightarrow> bool" where
  "is_delim_char c \<longleftrightarrow> is_alpha c \<or> c \<in> set ''0123456789._-''"

text \<open>
  \<^verbatim>\<open>([\s\S]*)\1\<close> on \<open>rest\<close>, with group 1 already bound to \<open>d\<close>: group 2 tries the
  first \<open>j\<close> characters, for \<open>j\<close> from the given bound downwards, and is accepted when
  \<open>d\<close> follows.
\<close>

fun match_body_from :: "string \<Rightarrow> string \<Rightarrow> nat \<Rightarrow> string option" where
  "match_body_from d rest 0 = (if startswith rest d then Some [] else None)"
| "match_body_from d rest (Suc j) =
     (if startswith (drop (Suc j) rest) d then Some (take (Suc j) rest)
      else match_body_from d rest j)"

definition match_body :: "string \<Rightarrow> string \<Rightarrow> string option" where
  "match_body d rest = match_body_from d rest (length rest)"

text \<open>
  \<^verbatim>\<open>[a-zA-Z0-9._-]+\<close> after the first letter \<open>c\<close>, on \<open>t\<close>: it tries the first \<open>n\<close>
  characters of \<open>t\<close>, for \<open>n\<close> from the given bound down to \<open>1\<close>; then \<^verbatim>\<open>\n\<close> has to
  follow, and the rest of the pattern to match.
\<close>

fun match_delim_from :: "char \<Rightarrow> string \<Rightarrow> nat \<Rightarrow> (string \<times> string) option" where
  "match_delim_from c t 0 = None"
| "match_delim_from c t (Suc n) =
     (let d = c # take (Suc n) t;
          r = (case drop (Suc n) t of
                 [] \<Rightarrow> None
               | x # rest \<Rightarrow> if x = newline then match_body d rest else None)
      in case r of
           Some b \<Rightarrow> Some (d, b)
         | None \<Rightarrow> match_delim_from c t n)"

text \<open>
  The whole pattern after its opening literal \<open>lit\<close> (\<^verbatim>\<open><<\<close> or \<^verbatim>\<open><<-\<close>): the result is
  \<open>(group(1), group(2))\<close>, or \<open>None\<close> when \<^verbatim>\<open>match\<close> returns \<^verbatim>\<open>None\<close>.
\<close>

definition heredoc_match :: "string \<Rightarrow> string \<Rightarrow> (string \<times> string) option" where
  "heredoc_match lit s =
     (if startswith s lit then
        (case drop (length lit) s of
           [] \<Rightarrow> None
         | c # t \<Rightarrow>
             if is_alpha c then match_delim_from c t (length (takeWhile is_delim_char t))
             else None)
      else None)"

definition HEREDOC_PATTERN :: "string \<Rightarrow> (string \<times> string) option" where
  "HEREDOC_PATTERN = heredoc_match ''<<''"

definition HEREDOC_TRIM_PATTERN :: "string \<Rightarrow> (string \<times> string) option" where
  "HEREDOC_TRIM_PATTERN = heredoc_match ''<<-''"

text \<open>\<^verbatim>\<open>s.rstrip(chars)\<close>, \<^verbatim>\<open>s.lstrip(chars)\<close> and \<^verbatim>\<open>s.split(sep)\<close> for a one-character \<open>sep\<close>.\<close>

definition rstrip :: "string \<Rightarrow> string \<Rightarrow> string" where
  "rstrip s chars = rev (dropWhile (\<lambda>c. c \<in> set chars) (rev s))"

definition lstrip :: "string \<Rightarrow> string \<Rightarrow> string" where
  "lstrip s chars = dropWhile (\<lambda>c. c \<in> set chars) s"

fun py_split :: "string \<Rightarrow> char \<Rightarrow> string list" where
  "py_split [] sep = [[]]"
| "py_split (c # s) sep =
     (if c = sep then [] # py_split s sep
      else (case py_split s sep of
              [] \<Rightarrow> [[c]]
            | l # ls \<Rightarrow> (c # l) # ls))"

definition trim_chars :: string where
  "trim_chars = [newline, CHR 0x09, CHR '' '']"

text \<open>\<^verbatim>\<open>sys.maxsize\<close> of a 64-bit CPython, which also bounds the length of every \<^verbatim>\<open>str\<close>.\<close>

definition sys_maxsize :: nat where
  "sys_maxsize = 2 ^ 63 - 1"

text \<open>
  \<^verbatim>\<open>
  def heredoc_template(self, args):
      match = HEREDOC_PATTERN.match(str(args[0]))
      if not match:
          raise RuntimeError(f"Invalid Heredoc token: {args[0]}")
      trim_chars = "\n\t "
      return f'"{match.group(2).rstrip(trim_chars)}"'
  \<close>
\<close>

fun heredoc_template :: "(pyval \<Rightarrow> string) \<Rightarrow> pyval list \<Rightarrow> error + pyval" where
  "heredoc_template rp [] = Inl IndexError"
| "heredoc_template rp (a0 # _) =
     (case HEREDOC_PATTERN (py_str rp a0) of
        None \<Rightarrow> Inl (RuntimeError (''Invalid Heredoc token: '' @ py_str rp a0))
      | Some (g1, g2) \<Rightarrow> Inr (PStr ([dquote] @ rstrip g2 trim_chars @ [dquote])))"

text \<open>
  \<^verbatim>\<open>
  def heredoc_template_trim(self, args):
      match = HEREDOC_TRIM_PATTERN.match(str(args[0]))
      if not match:
          raise RuntimeError(f"Invalid Heredoc token: {args[0]}")
      trim_chars = "\n\t "
      text = match.group(2).rstrip(trim_chars)
      lines = text.split("\n")
      # calculate the min number of leading spaces in each line
      min_spaces = sys.maxsize
      for line in lines:
          leading_spaces = len(line) - len(line.lstrip(" "))
          min_spaces = min(min_spaces, leading_spaces)
      # trim off that number of leading spaces from each line
      lines = [line[min_spaces:] for line in lines]
      return '"%s"' % "\n".join(lines)
  \<close>
\<close>

definition leading_spaces :: "string \<Rightarrow> nat" where
  "leading_spaces line = length line - length (lstrip line '' '')"

fun min_spaces_loop :: "string list \<Rightarrow> nat \<Rightarrow> nat" where
  "min_spaces_loop [] min_spaces = min_spaces"
| "min_spaces_loop (line # lines) min_spaces =
     min_spaces_loop lines (min min_spaces (leading_spaces line))"

definition dedent :: "string \<Rightarrow> string" where
  "dedent g2 =
     (let text = rstrip g2 trim_chars;
          lines = py_split text newline;
          min_spaces = min_spaces_loop lines sys_maxsize;
          lines = map (drop min_spaces) lines
      in [dquote] @ py_join [newline] lines @ [dquote])"

fun heredoc_template_trim :: "(pyval \<Rightarrow> string) \<Rightarrow> pyval list \<Rightarrow> error + pyval" where
  "heredoc_template_trim rp [] = Inl IndexError"
| "heredoc_template_trim rp (a0 # _) =
     (case HEREDOC_TRIM_PATTERN (py_str rp a0) of
        None \<Rightarrow> Inl (RuntimeError (''Invalid Heredoc token: '' @ py_str rp a0))
      | Some (g1, g2) \<Rightarrow> Inr (PStr (dedent g2)))"

section \<open>Notions used to state the properties\<close>

text \<open>
  A value wrapped in one single-key map per label, the first label outermost, each label
  passed through \<^verbatim>\<open>strip_quotes\<close>.
\<close>

definition nested_maps :: "pyval list \<Rightarrow> pyval \<Rightarrow> pyval" where
  "nested_maps labels inner = foldr (\<lambda>label r. PDict [(strip_quotes label, r)]) labels inner"

text \<open>
  The lines of a captured heredoc body once its trailing newlines, tabs and spaces are
  stripped, and the least number of leading spaces over a list of lines.
\<close>

definition heredoc_lines :: "string \<Rightarrow> string list" where
  "heredoc_lines g2 = py_split (rstrip g2 trim_chars) newline"

definition common_indent :: "string list \<Rightarrow> nat" where
  "common_indent lines = Min (set (map leading_spaces lines))"

subsection \<open>What a body's children contribute\<close>

text \<open>
  Read in order, the children of a body are a sequence of entries: an attribute child is
  one attribute entry \<open>(key, value)\<close>, and a block child (a dict) is one block entry per
  item, its key passed through \<^verbatim>\<open>str\<close> as the loop does.
\<close>

datatype event = EvAttr string pyval | EvBlock string pyval

fun ev_key :: "event \<Rightarrow> string" where
  "ev_key (EvAttr k _) = k"
| "ev_key (EvBlock k _) = k"

fun is_attr :: "event \<Rightarrow> bool" where
  "is_attr (EvAttr _ _) = True"
| "is_attr (EvBlock _ _) = False"

fun child_events :: "(pyval \<Rightarrow> string) \<Rightarrow> pyval \<Rightarrow> event list" where
  "child_events rp (PAttribute k v) = [EvAttr k v]"
| "child_events rp (PDict items) = map (\<lambda>(k, v). EvBlock (py_str rp k) v) items"
| "child_events rp _ = []"

definition body_events :: "(pyval \<Rightarrow> string) \<Rightarrow> pyval list \<Rightarrow> event list" where
  "body_events rp args = concat (map (child_events rp) (strip_new_line_tokens args))"

text \<open>The children the grammar gives a body: attributes and blocks.\<close>

fun is_body_child :: "pyval \<Rightarrow> bool" where
  "is_body_child (PAttribute _ _) = True"
| "is_body_child (PDict _) = True"
| "is_body_child _ = False"

text \<open>
  The first entry with a given key, whether that entry is an attribute or a block, and
  the values of all block entries, or of all attribute entries, with the key, in order.
\<close>

definition first_event :: "string \<Rightarrow> event list \<Rightarrow> event option" where
  "first_event k evs = find (\<lambda>e. ev_key e = k) evs"

definition attr_first :: "string \<Rightarrow> event list \<Rightarrow> bool" where
  "attr_first k evs = (case first_event k evs of Some (EvAttr _ _) \<Rightarrow> True | _ \<Rightarrow> False)"

definition block_first :: "string \<Rightarrow> event list \<Rightarrow> bool" where
  "block_first k evs = (case first_event k evs of Some (EvBlock _ _) \<Rightarrow> True | _ \<Rightarrow> False)"

fun block_values :: "string \<Rightarrow> event list \<Rightarrow> pyval list" where
  "block_values k [] = []"
| "block_values k (EvAttr _ _ # es) = block_values k es"
| "block_values k (EvBlock k' v # es) = (if k' = k then v # block_values k es else block_values k es)"

fun attr_values :: "string \<Rightarrow> event list \<Rightarrow> pyval list" where
  "attr_values k [] = []"
| "attr_values k (EvAttr k' v # es) = (if k' = k then v # attr_values k es else attr_values k es)"
| "attr_values k (EvBlock _ _ # es) = attr_values k es"

text \<open>
  The value a key is expected to have after the entries \<open>evs\<close>: the value of the first
  entry when that is an attribute, the list of all block values when it is a block.
\<close>

definition expected_value :: "string \<Rightarrow> event list \<Rightarrow> pyval option" where
  "expected_value k evs =
     (case first_event k evs of
        None \<Rightarrow> None
      | Some (EvAttr _ v) \<Rightarrow> Some v
      | Some (EvBlock _ _) \<Rightarrow> Some (PList (block_values k evs)))"

text \<open>
  The warning an entry is expected to cause after the entries \<open>seen\<close>: an attribute
  whose key has an entry already, a block entry whose key an attribute has taken.
\<close>

definition event_warning :: "event list \<Rightarrow> event \<Rightarrow> string list" where
  "event_warning seen e =
     (case e of
        EvAttr k _ \<Rightarrow> (if first_event k seen = None then [] else [attribute_warning k])
      | EvBlock k _ \<Rightarrow> (if attr_first k seen then [block_warning k] else []))"

fun warnings_after :: "event list \<Rightarrow> event list \<Rightarrow> string list" where
  "warnings_after seen [] = []"
| "warnings_after seen (e # es) = event_warning seen e @ warnings_after (seen @ [e]) es"

definition expected_warnings :: "event list \<Rightarrow> string list" where
  "expected_warnings evs = warnings_after [] evs"

text \<open>The invariant of the loop of \<^verbatim>\<open>body\<close> after the entries \<open>seen\<close>.\<close>

definition body_inv :: "body_state \<Rightarrow> event list \<Rightarrow> bool" where
  "body_inv s seen \<longleftrightarrow>
     (\<forall>k. dict_get (result s) k = expected_value k seen)
     \<and> attributes s = {k. attr_first k seen}
     \<and> warnings s = expected_warnings seen
     \<and> (\<forall>p \<in> set (result s). \<exists>k. fst p = PStr k)
     \<and> distinct (map fst (result s))"

section \<open>Values used in the examples\<close>

text \<open>
  In the examples every child that reaches \<^verbatim>\<open>str\<close> is itself a \<^verbatim>\<open>str\<close>, so the parameter
  for the text of other objects is never called there; this value fills its place.
\<close>

definition repr_unused :: "pyval \<Rightarrow> string" where
  "repr_unused v = []"

text \<open>Two bodies with attributes, blocks, a newline token and a \<^verbatim>\<open>Discard\<close>.\<close>

definition example_body :: "pyval list" where
  "example_body =
     [PAttribute ''a'' (PInt 1), PStr [newline], PDict [(PStr ''b'', PDict [])],
      PDict [(PStr ''b'', PInt 3)], PAttribute ''a'' (PInt 2), PDiscard,
      PDict [(PStr ''a'', PInt 3)], PAttribute ''b'' PNone]"

definition example_distinct :: "pyval list" where
  "example_distinct =
     [PDict [(PStr ''x'', PDict [])], PAttribute ''a'' (PInt 1), PDict [(PStr ''a'', PInt 0)],
      PDict [(PStr ''x'', PInt 5)], PAttribute ''b'' (PInt 2), PDict [(PStr ''b'', PInt 7)]]"

section \<open>Facts about the quoting helpers\<close>

lemma startswith_dquote: "startswith s [dquote] \<longleftrightarrow> (\<exists>r. s = dquote # r)"
  by (cases s) (auto simp: startswith_def)

lemma endswith_dquote: "endswith s [dquote] \<longleftrightarrow> (\<exists>r. s = r @ [dquote])"
proof (cases s rule: rev_cases)
  case Nil
  then show ?thesis by (simp add: endswith_def)
next
  case (snoc r c)
  then show ?thesis by (auto simp: endswith_def)
qed

lemma slice_1_m1_quoted: "slice_1_m1 (a # r @ [b]) = r"
  by (simp add: slice_1_m1_def butlast_append)

lemma slice_1_m1_take_drop: "slice_1_m1 s = take (length s - 2) (drop 1 s)"
  by (cases s) (simp_all add: slice_1_m1_def butlast_conv_take)

lemma quoted_shape:
  "startswith s [dquote] \<and> endswith s [dquote] \<longleftrightarrow>
     s = [dquote] \<or> (\<exists>r. s = dquote # r @ [dquote])"
proof (cases s)
  case Nil
  then show ?thesis by (simp add: startswith_def)
next
  case (Cons a t)
  show ?thesis
  proof (cases t rule: rev_cases)
    case Nil
    with Cons show ?thesis by (auto simp: startswith_def endswith_def)
  next
    case (snoc r b)
    with Cons show ?thesis by (auto simp: startswith_def endswith_def)
  qed
qed

lemma to_string_dollar_quoted:
  "startswith s [dquote] \<and> endswith s [dquote] \<Longrightarrow>
     to_string_dollar (PStr s) = PStr (take (length s - 2) (drop 1 s))"
  by (simp add: slice_1_m1_take_drop)

lemma to_string_dollar_layer: "to_string_dollar (PStr (dquote # r @ [dquote])) = PStr r"
  by (simp add: startswith_def endswith_def slice_1_m1_quoted)

lemma to_string_dollar_other:
  "(\<forall>t. v \<noteq> PStr t) \<Longrightarrow> to_string_dollar v = v"
  by (cases v) simp_all

section \<open>Claims about the quoting helpers\<close>

text \<open>
  C6.  \<^verbatim>\<open>to_string_dollar\<close> on every input: a string that starts and ends with a double
  quote loses its first and its last character, which for \<open>"r"\<close> leaves exactly \<open>r\<close>, and
  gets no \<^verbatim>\<open>${}\<close> wrapper; any other string \<open>u\<close> becomes \<^verbatim>\<open>${\<close>\<open>u\<close>\<^verbatim>\<open>}\<close>; a value that is
  not a string is returned as it is.  The helper is what \<^verbatim>\<open>attribute\<close> applies to the
  attribute's value, \<^verbatim>\<open>tuple\<close> to each element and \<^verbatim>\<open>object_elem\<close> to the value of the pair.
\<close>

theorem to_string_dollar_behaviour:
  "(startswith s [dquote] \<and> endswith s [dquote] \<longrightarrow>
      to_string_dollar (PStr s) = PStr (take (length s - 2) (drop 1 s)))
   \<and> to_string_dollar (PStr (dquote # r @ [dquote])) = PStr r
   \<and> (\<not> (startswith u [dquote] \<and> endswith u [dquote]) \<longrightarrow>
        to_string_dollar (PStr u) = PStr (''${'' @ u @ ''}''))
   \<and> ((\<forall>t. v \<noteq> PStr t) \<longrightarrow> to_string_dollar v = v)
   \<and> (\<exists>key. attribute rp (k # x # rest) = Inr (PAttribute key (to_string_dollar x)))
   \<and> tuple args = PList (map to_string_dollar (strip_new_line_tokens args))
   \<and> (hashable (strip_quotes k) \<longrightarrow>
        object_elem (k # x # rest) = Inr (PDict [(strip_quotes k, to_string_dollar x)]))"
proof -
  have a: "startswith s [dquote] \<and> endswith s [dquote] \<longrightarrow>
      to_string_dollar (PStr s) = PStr (take (length s - 2) (drop 1 s))"
    using to_string_dollar_quoted by blast
  have b: "to_string_dollar (PStr (dquote # r @ [dquote])) = PStr r"
    by (rule to_string_dollar_layer)
  have c: "\<not> (startswith u [dquote] \<and> endswith u [dquote]) \<longrightarrow>
        to_string_dollar (PStr u) = PStr (''${'' @ u @ ''}'')"
    by simp
  have d: "(\<forall>t. v \<noteq> PStr t) \<longrightarrow> to_string_dollar v = v"
    using to_string_dollar_other by blast
  have e: "\<exists>key. attribute rp (k # x # rest) = Inr (PAttribute key (to_string_dollar x))"
    by (simp add: Let_def)
  have f: "tuple args = PList (map to_string_dollar (strip_new_line_tokens args))"
    by (simp add: tuple_def)
  have g: "hashable (strip_quotes k) \<longrightarrow>
        object_elem (k # x # rest) = Inr (PDict [(strip_quotes k, to_string_dollar x)])"
    by (simp add: Let_def)
  from a b c d e f g show ?thesis by blast
qed

theorem to_string_dollar_behaviour_witness:
  "to_string_dollar (PStr [dquote, CHR ''a'', CHR ''b'', CHR ''c'', dquote]) = PStr ''abc''
   \<and> to_string_dollar (PStr ''foo.bar'') = PStr ''${foo.bar}''
   \<and> to_string_dollar (PInt 3) = PInt 3
   \<and> tuple [PStr ''x'', PDiscard, PInt 1] = PList [PStr ''${x}'', PInt 1]
   \<and> object_elem [PStr [dquote, CHR ''k'', dquote], PStr ''v''] = Inr (PDict [(PStr ''k'', PStr ''${v}'')])"
  using to_string_dollar_behaviour
    [of "[dquote, CHR ''a'', CHR ''b'', CHR ''c'', dquote]" "''abc''" "''foo.bar''" "PInt 3"
        "repr_unused" "PStr [dquote, CHR ''k'', dquote]" "PStr ''v''" "[]"
        "[PStr ''x'', PDiscard, PInt 1]"]
  by (simp add: startswith_def endswith_def slice_1_m1_def dquote_def newline_def
      strip_new_line_tokens_def)

text \<open>
  C9.  On the string made of one double quote, \<^verbatim>\<open>startswith('"')\<close> and
  \<^verbatim>\<open>endswith('"')\<close> both hold with no test of the length, the slice \<^verbatim>\<open>[1:-1]\<close> is empty,
  and both \<^verbatim>\<open>strip_quotes\<close> and \<^verbatim>\<open>to_string_dollar\<close> return the empty string.
\<close>

theorem single_quote_char_gives_empty:
  "startswith [dquote] [dquote] \<and> endswith [dquote] [dquote]
   \<and> strip_quotes (PStr [dquote]) = PStr []
   \<and> to_string_dollar (PStr [dquote]) = PStr []"
  by (simp add: startswith_def endswith_def slice_1_m1_def)

section \<open>Facts about the heredoc patterns\<close>

lemma newline_not_delim: "\<not> is_delim_char newline"
  by (simp add: is_delim_char_def is_alpha_def newline_def)

lemma match_delim_from_Some:
  "match_delim_from c t n = Some (d, b) \<Longrightarrow>
     \<exists>m rest. 0 < m \<and> m \<le> n \<and> d = c # take m t \<and> drop m t = newline # rest
        \<and> match_body d rest = Some b"
proof (induction n)
  case 0
  then show ?case by simp
next
  case (Suc n)
  show ?case
  proof (cases "drop (Suc n) t")
    case Nil
    with Suc.prems have "match_delim_from c t n = Some (d, b)" by simp
    from Suc.IH [OF this] show ?thesis by (blast intro: le_SucI)
  next
    case (Cons x rest)
    show ?thesis
    proof (cases "x = newline \<and> match_body (c # take (Suc n) t) rest \<noteq> None")
      case True
      with Cons Suc.prems have "d = c # take (Suc n) t" "match_body d rest = Some b"
        by (auto simp: Let_def)
      with Cons True show ?thesis by (intro exI [of _ "Suc n"] exI [of _ rest]) simp
    next
      case False
      with Cons Suc.prems have "match_delim_from c t n = Some (d, b)"
        by (auto simp: Let_def split: if_splits option.splits)
      from Suc.IH [OF this] show ?thesis by (blast intro: le_SucI)
    qed
  qed
qed

text \<open>
  What a match of either pattern looks like: the text is the opening literal, the
  delimiter (a letter and at least one more delimiter character), a newline, and then
  text in which group 2 is followed by the delimiter again.
\<close>

lemma heredoc_match_Some:
  assumes "heredoc_match lit s = Some (d, b)"
  shows "\<exists>rest. s = lit @ d @ newline # rest \<and> match_body d rest = Some b
           \<and> 2 \<le> length d \<and> is_alpha (hd d) \<and> (\<forall>c \<in> set (tl d). is_delim_char c)"
proof -
  from assms have sw: "startswith s lit"
    by (auto simp: heredoc_match_def split: if_splits)
  then have s: "s = lit @ drop (length lit) s"
    by (metis append_take_drop_id startswith_def)
  from assms sw obtain c t where ct: "drop (length lit) s = c # t" and al: "is_alpha c"
    and md: "match_delim_from c t (length (takeWhile is_delim_char t)) = Some (d, b)"
    by (auto simp: heredoc_match_def split: if_splits list.splits)
  from match_delim_from_Some [OF md] obtain m rest where m: "0 < m"
    "m \<le> length (takeWhile is_delim_char t)" "d = c # take m t" "drop m t = newline # rest"
    "match_body d rest = Some b" by blast
  have "t = take m t @ newline # rest" using m(4) by (metis append_take_drop_id)
  with s ct m(3) have "s = lit @ d @ newline # rest" by simp
  moreover have "m < length t" using m(4) by (metis drop_all list.distinct(1) not_le_imp_less)
  then have "2 \<le> length d" using m(1,3) by simp
  moreover have "\<forall>c \<in> set (take m t). is_delim_char c"
  proof
    fix x assume x: "x \<in> set (take m t)"
    have "take m (takeWhile is_delim_char t) =
          take m (take (length (takeWhile is_delim_char t)) t)"
      by (simp add: takeWhile_eq_take [symmetric])
    also have "\<dots> = take m t" using m(2) by (simp add: min_def)
    finally have "x \<in> set (takeWhile is_delim_char t)" using x by (metis in_set_takeD)
    then show "is_delim_char x" by (meson set_takeWhileD)
  qed
  ultimately show ?thesis using m(3,5) al by auto
qed

lemma single_char_no_match: "heredoc_match lit (lit @ c # newline # rest) = None"
  by (simp add: heredoc_match_def startswith_def newline_not_delim)

section \<open>Claims about heredoc tokens with a one-character delimiter\<close>

text \<open>
  C10.  A heredoc token whose delimiter is a single character, \<^verbatim>\<open><<\<close>\<open>c\<close>\<^verbatim>\<open>\n\<close>\<open>...\<close> or
  \<^verbatim>\<open><<-\<close>\<open>c\<close>\<^verbatim>\<open>\n\<close>\<open>...\<close>, is matched by neither pattern, whatever follows the newline, so
  \<^verbatim>\<open>heredoc_template\<close> and \<^verbatim>\<open>heredoc_template_trim\<close> raise
  \<^verbatim>\<open>RuntimeError("Invalid Heredoc token: ...")\<close>.  Whenever one of the patterns does match,
  the delimiter it has found has at least two characters and starts with a letter.
\<close>

theorem single_char_delimiter_rejected:
  "heredoc_template rp (PStr (''<<'' @ c # newline # rest) # args) =
     Inl (RuntimeError (''Invalid Heredoc token: '' @ ''<<'' @ c # newline # rest))
   \<and> heredoc_template_trim rp (PStr (''<<-'' @ c # newline # rest) # args) =
     Inl (RuntimeError (''Invalid Heredoc token: '' @ ''<<-'' @ c # newline # rest))
   \<and> (HEREDOC_PATTERN s = Some (d, b) \<or> HEREDOC_TRIM_PATTERN s = Some (d, b) \<longrightarrow>
        2 \<le> length d \<and> is_alpha (hd d))"
proof -
  have "HEREDOC_PATTERN (''<<'' @ c # newline # rest) = None"
    unfolding HEREDOC_PATTERN_def by (rule single_char_no_match)
  then have a: "heredoc_template rp (PStr (''<<'' @ c # newline # rest) # args) =
     Inl (RuntimeError (''Invalid Heredoc token: '' @ ''<<'' @ c # newline # rest))"
    by (simp add: py_str_def)
  have "HEREDOC_TRIM_PATTERN (''<<-'' @ c # newline # rest) = None"
    unfolding HEREDOC_TRIM_PATTERN_def by (rule single_char_no_match)
  then have b: "heredoc_template_trim rp (PStr (''<<-'' @ c # newline # rest) # args) =
     Inl (RuntimeError (''Invalid Heredoc token: '' @ ''<<-'' @ c # newline # rest))"
    by (simp add: py_str_def)
  have c: "HEREDOC_PATTERN s = Some (d, b) \<or> HEREDOC_TRIM_PATTERN s = Some (d, b) \<longrightarrow>
        2 \<le> length d \<and> is_alpha (hd d)"
    unfolding HEREDOC_PATTERN_def HEREDOC_TRIM_PATTERN_def
    using heredoc_match_Some by blast
  from a b c show ?thesis by blast
qed

theorem single_char_delimiter_rejected_witness:
  "heredoc_template repr_unused [PStr (''<<E'' @ newline # ''hello'' @ newline # ''E'')] =
     Inl (RuntimeError (''Invalid Heredoc token: <<E'' @ newline # ''hello'' @ newline # ''E''))
   \<and> heredoc_template_trim repr_unused [PStr (''<<-E'' @ newline # ''hello'' @ newline # ''E'')] =
     Inl (RuntimeError (''Invalid Heredoc token: <<-E'' @ newline # ''hello'' @ newline # ''E''))
   \<and> HEREDOC_PATTERN (''<<EOF'' @ newline # ''hello'' @ newline # ''EOF'') =
       Some (''EOF'', ''hello'' @ [newline])
   \<and> 2 \<le> length ''EOF'' \<and> is_alpha (hd ''EOF'')"
  using single_char_delimiter_rejected
    [of repr_unused "CHR ''E''" "''hello'' @ newline # ''E''" "[]"
        "''<<EOF'' @ newline # ''hello'' @ newline # ''EOF''" "''EOF''" "''hello'' @ [newline]"]
  by (simp add: HEREDOC_PATTERN_def heredoc_match_def startswith_def is_alpha_def
      is_delim_char_def match_body_def newline_def)

section \<open>Claims about for expressions\<close>

text \<open>
  C8, as the code has it.  The text that \<^verbatim>\<open>for_object_expr\<close> returns is one opening
  brace, the children between the first and the last one (after the newline and
  \<^verbatim>\<open>Discard\<close> children are removed) joined by single spaces, and one closing brace: the
  doubled braces of the f-string are its escape for a single literal brace.
\<close>

theorem for_object_expr_single_braces:
  "for_object_expr rp args =
     PStr (''{'' @ py_join '' '' (map (py_str rp) (slice_1_m1 (strip_new_line_tokens args))) @ ''}'')
   \<and> (strip_new_line_tokens args = a # inner @ [z] \<longrightarrow>
        for_object_expr rp args = PStr (''{'' @ py_join '' '' (map (py_str rp) inner) @ ''}''))"
  by (simp add: for_object_expr_def Let_def slice_1_m1_quoted)

theorem for_object_expr_single_braces_witness:
  "strip_new_line_tokens
     [PStr ''{'', PStr [newline], PStr ''for k, v in x :'', PStr ''k'', PStr ''=>'', PStr ''v'',
      PDiscard, PStr ''}'']
     = PStr ''{'' # [PStr ''for k, v in x :'', PStr ''k'', PStr ''=>'', PStr ''v''] @ [PStr ''}'']
   \<and> for_object_expr repr_unused
     [PStr ''{'', PStr [newline], PStr ''for k, v in x :'', PStr ''k'', PStr ''=>'', PStr ''v'',
      PDiscard, PStr ''}'']
     = PStr ''{for k, v in x : k => v}''"
  using for_object_expr_single_braces
    [of repr_unused
        "[PStr ''{'', PStr [newline], PStr ''for k, v in x :'', PStr ''k'', PStr ''=>'', PStr ''v'',
          PDiscard, PStr ''}'']"
        "PStr ''{''" "[PStr ''for k, v in x :'', PStr ''k'', PStr ''=>'', PStr ''v'']" "PStr ''}''"]
  by (simp add: strip_new_line_tokens_def newline_def py_str_def slice_1_m1_def)

text \<open>
  C8, as the claim states it, fails: the text returned for the children
  \<^verbatim>\<open>{\<close>, \<^verbatim>\<open>for k, v in x :\<close>, \<^verbatim>\<open>k\<close>, \<^verbatim>\<open>=>\<close>, \<^verbatim>\<open>v\<close>, \<^verbatim>\<open>}\<close> neither begins with \<^verbatim>\<open>{{\<close> nor ends
  with \<^verbatim>\<open>}}\<close>.
\<close>

theorem for_object_expr_doubled_braces_counterexample:
  "for_object_expr repr_unused
     [PStr ''{'', PStr ''for k, v in x :'', PStr ''k'', PStr ''=>'', PStr ''v'', PStr ''}'']
     = PStr ''{for k, v in x : k => v}''
   \<and> \<not> startswith ''{for k, v in x : k => v}'' ''{{''
   \<and> \<not> endswith ''{for k, v in x : k => v}'' ''}}''"
  by (simp add: for_object_expr_def strip_new_line_tokens_def slice_1_m1_def py_str_def
      startswith_def endswith_def newline_def)

section \<open>Facts about blocks\<close>

lemma wrap_labels_rev:
  "\<forall>l \<in> set labels. hashable (strip_quotes l) \<Longrightarrow>
     wrap_labels (rev labels) r = Inr (nested_maps labels r)"
proof (induction labels arbitrary: r rule: rev_induct)
  case Nil
  then show ?case by (simp add: nested_maps_def)
next
  case (snoc x xs)
  then show ?case by (simp add: nested_maps_def Let_def)
qed

lemma strip_quotes_layer: "strip_quotes (PStr (dquote # r @ [dquote])) = PStr r"
  by (simp add: startswith_def endswith_def slice_1_m1_quoted)

section \<open>Claims about blocks\<close>

text \<open>
  C5.  For a block whose children are \<open>N\<close> labels followed by a body, \<^verbatim>\<open>block\<close> returns
  the body wrapped in \<open>N\<close> nested single-key maps, one per label, the first label
  outermost; a label that is a quoted string loses its quotes, any other string label is
  kept.  With metadata mode on, the body map first receives the two line keys and is then
  wrapped in the same way.  Labels \<open>[a, "b"]\<close> around \<open>{x: 1}\<close> give \<open>{a: {b: {x: 1}}}\<close>.
\<close>

theorem block_nests_labels:
  assumes "\<forall>l \<in> set labels. hashable (strip_quotes l)"
  shows "block False m (labels @ [b]) = Inr (nested_maps labels b)
    \<and> block True m (labels @ [PDict d]) =
        Inr (nested_maps labels
              (PDict (dict_set (dict_set d START_LINE (PInt (meta_line m)))
                         END_LINE (PInt (meta_end_line m)))))
    \<and> nested_maps [] b = b
    \<and> nested_maps (l # ls) b = PDict [(strip_quotes l, nested_maps ls b)]
    \<and> strip_quotes (PStr (dquote # r @ [dquote])) = PStr r
    \<and> (\<not> (startswith s [dquote] \<and> endswith s [dquote]) \<longrightarrow> strip_quotes (PStr s) = PStr s)"
  using wrap_labels_rev [OF assms]
  by (simp add: block_def nested_maps_def strip_quotes_layer del: strip_quotes.simps) simp

theorem block_nests_labels_witness:
  "block False \<lparr>meta_line = 3, meta_end_line = 7\<rparr>
      [PStr ''a'', PStr [dquote, CHR ''b'', dquote], PDict [(PStr ''x'', PInt 1)]]
     = Inr (PDict [(PStr ''a'', PDict [(PStr ''b'', PDict [(PStr ''x'', PInt 1)])])])
   \<and> block True \<lparr>meta_line = 3, meta_end_line = 7\<rparr>
      [PStr ''a'', PStr [dquote, CHR ''b'', dquote], PDict [(PStr ''x'', PInt 1)]]
     = Inr (PDict [(PStr ''a'', PDict [(PStr ''b'',
          PDict [(PStr ''x'', PInt 1), (PStr ''__start_line__'', PInt 3),
                 (PStr ''__end_line__'', PInt 7)])])])"
  using block_nests_labels
    [of "[PStr ''a'', PStr [dquote, CHR ''b'', dquote]]" "\<lparr>meta_line = 3, meta_end_line = 7\<rparr>"
        "PDict [(PStr ''x'', PInt 1)]" "[(PStr ''x'', PInt 1)]" "PStr ''a''" "[]" "''b''" "''a''"]
  by (simp add: nested_maps_def startswith_def endswith_def slice_1_m1_def dquote_def
      START_LINE_def END_LINE_def)

section \<open>Facts about matching and dedenting a heredoc\<close>

lemma match_body_from_last:
  "i \<le> j \<Longrightarrow> startswith (drop i rest) d \<Longrightarrow>
   (\<forall>i'. i < i' \<and> i' \<le> j \<longrightarrow> \<not> startswith (drop i' rest) d) \<Longrightarrow>
   match_body_from d rest j = Some (take i rest)"
proof (induction j)
  case 0
  then show ?case by simp
next
  case (Suc j)
  show ?case
  proof (cases "i = Suc j")
    case True
    with Suc.prems show ?thesis by simp
  next
    case False
    with Suc.prems have "i \<le> j" by simp
    moreover have "\<not> startswith (drop (Suc j) rest) d"
      using Suc.prems False by simp
    ultimately show ?thesis using Suc by simp
  qed
qed

lemma match_body_closing:
  assumes "d \<noteq> []"
  shows "match_body d (b @ d) = Some b"
proof -
  have "match_body_from d (b @ d) (length (b @ d)) = Some (take (length b) (b @ d))"
  proof (rule match_body_from_last)
    show "length b \<le> length (b @ d)" by simp
    show "startswith (drop (length b) (b @ d)) d" by (simp add: startswith_def)
    show "\<forall>i'. length b < i' \<and> i' \<le> length (b @ d) \<longrightarrow> \<not> startswith (drop i' (b @ d)) d"
    proof (intro allI impI)
      fix i' assume i': "length b < i' \<and> i' \<le> length (b @ d)"
      with assms have "length (drop i' (b @ d)) < length d" by (cases d) auto
      then have "take (length d) (drop i' (b @ d)) \<noteq> d"
        by (metis length_take min.strict_order_iff min_less_iff_conj nat_neq_iff)
      then show "\<not> startswith (drop i' (b @ d)) d" by (simp add: startswith_def)
    qed
  qed
  then show ?thesis by (simp add: match_body_def)
qed

lemma heredoc_match_well_formed:
  assumes "is_alpha c" "ds \<noteq> []" "\<forall>x \<in> set ds. is_delim_char x"
  shows "heredoc_match lit (lit @ (c # ds) @ newline # b @ (c # ds)) = Some (c # ds, b)"
proof -
  let ?t = "ds @ newline # b @ c # ds"
  have tw: "takeWhile is_delim_char ?t = ds"
    using assms(3) by (simp add: newline_not_delim)
  from assms(2) obtain n where n: "length ds = Suc n" by (cases ds) auto
  have "match_delim_from c ?t (Suc n) = Some (c # ds, b)"
    using n match_body_closing [of "c # ds" b] by (simp add: Let_def)
  with tw n assms(1) show ?thesis
    by (simp add: heredoc_match_def startswith_def)
qed

lemma leading_spaces_takeWhile:
  "leading_spaces l = length (takeWhile (\<lambda>c. c = CHR '' '') l)"
proof -
  have "length l = length (takeWhile (\<lambda>c. c = CHR '' '') l) + length (dropWhile (\<lambda>c. c = CHR '' '') l)"
    by (metis length_append takeWhile_dropWhile_id)
  then show ?thesis by (simp add: leading_spaces_def lstrip_def)
qed

lemma take_leading_spaces:
  assumes "m \<le> leading_spaces l"
  shows "take m l = replicate m (CHR '' '')"
proof -
  let ?P = "\<lambda>c. c = CHR '' ''"
  have "takeWhile ?P l = replicate (length (takeWhile ?P l)) (CHR '' '')"
    by (rule replicate_length_same [symmetric]) (meson set_takeWhileD)
  then have tw: "takeWhile ?P l = replicate (leading_spaces l) (CHR '' '')"
    by (simp add: leading_spaces_takeWhile)
  have "take m l = take m (takeWhile ?P l @ dropWhile ?P l)" by simp
  also have "\<dots> = take m (takeWhile ?P l)"
    using assms by (simp add: leading_spaces_takeWhile del: takeWhile_dropWhile_id)
  also have "\<dots> = replicate m (CHR '' '')"
    using assms by (subst tw) (simp add: min_def)
  finally show ?thesis .
qed

lemma min_spaces_loop_le:
  "min_spaces_loop lines a \<le> a \<and> (\<forall>l \<in> set lines. min_spaces_loop lines a \<le> leading_spaces l)"
proof (induction lines arbitrary: a)
  case Nil
  then show ?case by simp
next
  case (Cons l ls)
  from Cons [of "min a (leading_spaces l)"] show ?case by auto
qed

lemma min_spaces_loop_attained:
  "min_spaces_loop lines a = a \<or> (\<exists>l \<in> set lines. min_spaces_loop lines a = leading_spaces l)"
proof (induction lines arbitrary: a)
  case Nil
  then show ?case by simp
next
  case (Cons l ls)
  from Cons [of "min a (leading_spaces l)"] show ?case by (auto simp: min_def split: if_splits)
qed

lemma min_spaces_loop_Min:
  assumes "lines \<noteq> []" "\<forall>l \<in> set lines. leading_spaces l \<le> a"
  shows "min_spaces_loop lines a = common_indent lines"
proof -
  have le: "\<forall>l \<in> set lines. min_spaces_loop lines a \<le> leading_spaces l"
    using min_spaces_loop_le by blast
  have "\<exists>l \<in> set lines. min_spaces_loop lines a = leading_spaces l"
  proof (cases "min_spaces_loop lines a = a")
    case True
    from assms(1) obtain l where l: "l \<in> set lines" by (cases lines) auto
    with le assms(2) True have "leading_spaces l = a" by fastforce
    with l True show ?thesis by auto
  next
    case False
    with min_spaces_loop_attained [of lines a] show ?thesis by blast
  qed
  then have "min_spaces_loop lines a \<in> set (map leading_spaces lines)" by auto
  moreover have "\<forall>y \<in> set (map leading_spaces lines). min_spaces_loop lines a \<le> y"
    using le by auto
  ultimately have "Min (set (map leading_spaces lines)) = min_spaces_loop lines a"
    by (intro Min_eqI) auto
  then show ?thesis by (simp add: common_indent_def)
qed

lemma py_split_nonempty: "py_split s sep \<noteq> []"
  by (induction s) (auto split: list.splits)

lemma py_join_Cons_Cons: "py_join sep ((c # l) # ls) = c # py_join sep (l # ls)"
  by (cases ls) simp_all

lemma py_join_split: "py_join [sep] (py_split s sep) = s"
proof (induction s)
  case Nil
  then show ?case by simp
next
  case (Cons c s)
  obtain l ls where sp: "py_split s sep = l # ls"
    using py_split_nonempty [of s sep] by (cases "py_split s sep") auto
  with Cons show ?case by (simp add: py_join_Cons_Cons)
qed

lemma py_split_length: "l \<in> set (py_split s sep) \<Longrightarrow> length l \<le> length s"
proof (induction s arbitrary: l)
  case Nil
  then show ?case by simp
next
  case (Cons c s)
  obtain l' ls where sp: "py_split s sep = l' # ls"
    using py_split_nonempty [of s sep] by (cases "py_split s sep") auto
  with Cons show ?case by (fastforce split: if_splits)
qed

lemma rstrip_length: "length (rstrip s cs) \<le> length s"
  unfolding rstrip_def by (metis length_dropWhile_le length_rev)

lemma leading_spaces_le: "leading_spaces l \<le> length l"
  by (simp add: leading_spaces_def)

lemma dedent_common_indent:
  assumes "length g2 \<le> sys_maxsize"
  shows "dedent g2 = [dquote] @ py_join [newline]
           (map (drop (common_indent (heredoc_lines g2))) (heredoc_lines g2)) @ [dquote]"
proof -
  have "\<forall>l \<in> set (heredoc_lines g2). leading_spaces l \<le> sys_maxsize"
  proof
    fix l assume "l \<in> set (heredoc_lines g2)"
    then have "length l \<le> length (rstrip g2 trim_chars)"
      unfolding heredoc_lines_def by (rule py_split_length)
    with rstrip_length [of g2 trim_chars] leading_spaces_le [of l] assms
    show "leading_spaces l \<le> sys_maxsize" by linarith
  qed
  moreover have "heredoc_lines g2 \<noteq> []" by (simp add: heredoc_lines_def py_split_nonempty)
  ultimately have "min_spaces_loop (heredoc_lines g2) sys_maxsize = common_indent (heredoc_lines g2)"
    by (intro min_spaces_loop_Min) auto
  then show ?thesis by (simp add: dedent_def heredoc_lines_def Let_def)
qed

lemma rstrip_decomp:
  "(\<exists>tail. s = rstrip s cs @ tail \<and> set tail \<subseteq> set cs)
   \<and> (rstrip s cs = [] \<or> last (rstrip s cs) \<notin> set cs)"
proof -
  let ?P = "\<lambda>c. c \<in> set cs"
  have "rev s = takeWhile ?P (rev s) @ dropWhile ?P (rev s)" by simp
  then have "s = rev (dropWhile ?P (rev s)) @ rev (takeWhile ?P (rev s))"
    by (metis rev_append rev_rev_ident)
  moreover have "set (rev (takeWhile ?P (rev s))) \<subseteq> set cs"
    by (auto dest: set_takeWhileD)
  ultimately have a: "\<exists>tail. s = rstrip s cs @ tail \<and> set tail \<subseteq> set cs"
    unfolding rstrip_def by blast
  have b: "rstrip s cs = [] \<or> last (rstrip s cs) \<notin> set cs"
  proof (cases "dropWhile ?P (rev s)")
    case Nil
    then show ?thesis by (simp add: rstrip_def)
  next
    case (Cons x xs)
    then have "\<not> ?P x" by (metis hd_dropWhile list.sel(1) list.distinct(1))
    with Cons show ?thesis by (simp add: rstrip_def)
  qed
  from a b show ?thesis by blast
qed

section \<open>Claims about dedenting heredocs\<close>

text \<open>
  C7.  For a dedenting heredoc token \<^verbatim>\<open><<-\<close>\<open>d\<close>\<^verbatim>\<open>\n\<close>\<open>b d\<close>, with \<open>d\<close> a delimiter the
  pattern accepts and \<open>b\<close> any text no longer than \<^verbatim>\<open>sys.maxsize\<close>,
  \<^verbatim>\<open>heredoc_template_trim\<close> returns, between double quotes, the lines of \<open>b\<close> without its
  trailing newlines, tabs and spaces, each shortened by the same number \<open>m\<close> of leading
  characters and joined by newlines again.  The number \<open>m\<close> is the minimum over all lines
  of the count of leading spaces (a tab ends the count), it is attained by a line, and
  the \<open>m\<close> characters removed from a line are all spaces.
\<close>

theorem heredoc_template_trim_dedents:
  assumes "is_alpha c" "ds \<noteq> []" "\<forall>x \<in> set ds. is_delim_char x" "length b \<le> sys_maxsize"
  shows "heredoc_template_trim rp (PStr (''<<-'' @ (c # ds) @ newline # b @ (c # ds)) # args) =
           Inr (PStr ([dquote] @ py_join [newline]
                  (map (drop (common_indent (heredoc_lines b))) (heredoc_lines b)) @ [dquote]))
     \<and> py_join [newline] (heredoc_lines b) = rstrip b trim_chars
     \<and> (\<exists>tail. b = rstrip b trim_chars @ tail \<and> set tail \<subseteq> set trim_chars)
     \<and> (rstrip b trim_chars = [] \<or> last (rstrip b trim_chars) \<notin> set trim_chars)
     \<and> (\<forall>l \<in> set (heredoc_lines b).
          common_indent (heredoc_lines b) \<le> leading_spaces l
          \<and> l = replicate (common_indent (heredoc_lines b)) (CHR '' '')
                 @ drop (common_indent (heredoc_lines b)) l)
     \<and> (\<exists>l \<in> set (heredoc_lines b). leading_spaces l = common_indent (heredoc_lines b))
     \<and> leading_spaces line = length (takeWhile (\<lambda>x. x = CHR '' '') line)"
proof -
  let ?ls = "heredoc_lines b"
  have ne: "?ls \<noteq> []" by (simp add: heredoc_lines_def py_split_nonempty)
  have "HEREDOC_TRIM_PATTERN (''<<-'' @ (c # ds) @ newline # b @ (c # ds)) = Some (c # ds, b)"
    unfolding HEREDOC_TRIM_PATTERN_def using assms(1-3) by (rule heredoc_match_well_formed)
  then have a: "heredoc_template_trim rp (PStr (''<<-'' @ (c # ds) @ newline # b @ (c # ds)) # args) =
           Inr (PStr ([dquote] @ py_join [newline] (map (drop (common_indent ?ls)) ?ls) @ [dquote]))"
    using dedent_common_indent [OF assms(4)] by (simp add: py_str_def)
  have b: "py_join [newline] ?ls = rstrip b trim_chars"
    by (simp add: heredoc_lines_def py_join_split)
  have fin: "finite (set (map leading_spaces ?ls))" "set (map leading_spaces ?ls) \<noteq> {}"
    using ne by auto
  have le: "\<forall>l \<in> set ?ls. common_indent ?ls \<le> leading_spaces l"
    unfolding common_indent_def using fin by (auto intro: Min_le)
  have c: "\<forall>l \<in> set ?ls. common_indent ?ls \<le> leading_spaces l
          \<and> l = replicate (common_indent ?ls) (CHR '' '') @ drop (common_indent ?ls) l"
  proof
    fix l assume l: "l \<in> set ?ls"
    with le have m: "common_indent ?ls \<le> leading_spaces l" by blast
    have "l = take (common_indent ?ls) l @ drop (common_indent ?ls) l" by simp
    with take_leading_spaces [OF m] m
    show "common_indent ?ls \<le> leading_spaces l
          \<and> l = replicate (common_indent ?ls) (CHR '' '') @ drop (common_indent ?ls) l"
      by metis
  qed
  have "common_indent ?ls \<in> set (map leading_spaces ?ls)"
    unfolding common_indent_def using fin by (rule Min_in)
  then have d: "\<exists>l \<in> set ?ls. leading_spaces l = common_indent ?ls" by auto
  from a b c d rstrip_decomp [of b trim_chars] leading_spaces_takeWhile [of line]
  show ?thesis by blast
qed

theorem heredoc_template_trim_dedents_witness:
  "heredoc_template_trim repr_unused
     [PStr (''<<-EOF'' @ newline # ''  hello'' @ newline # ''  world'' @ newline # ''EOF'')]
     = Inr (PStr ([dquote] @ ''hello'' @ newline # ''world'' @ [dquote]))
   \<and> heredoc_lines (''  hello'' @ newline # ''  world'' @ [newline]) = [''  hello'', ''  world'']
   \<and> common_indent [''  hello'', ''  world''] = 2
   \<and> leading_spaces (CHR 0x09 # ''  x'') = 0"
  using heredoc_template_trim_dedents
    [of "CHR ''E''" "''OF''" "''  hello'' @ newline # ''  world'' @ [newline]" repr_unused "[]"
        "CHR 0x09 # ''  x''"]
  by (simp add: is_alpha_def is_delim_char_def sys_maxsize_def heredoc_lines_def rstrip_def
      trim_chars_def newline_def dquote_def common_indent_def leading_spaces_def lstrip_def)

section \<open>Facts about bodies\<close>

lemma dict_get_dict_set:
  "dict_get (dict_set d k v) k' = (if k' = k then Some v else dict_get d k')"
  by (induction d) (auto simp: dict_get_def)

lemma keys_dict_set: "fst ` set (dict_set d k v) = insert (PStr k) (fst ` set d)"
proof (induction d)
  case Nil
  then show ?case by simp
next
  case (Cons p d)
  obtain a b where p: "p = (a, b)" by (cases p)
  show ?case
  proof (cases "a = PStr k")
    case True
    with p show ?thesis by auto
  next
    case False
    with p Cons show ?thesis by (simp add: insert_commute)
  qed
qed

lemma distinct_dict_set: "distinct (map fst d) \<Longrightarrow> distinct (map fst (dict_set d k v))"
proof (induction d)
  case Nil
  then show ?case by simp
next
  case (Cons p d)
  obtain a b where p: "p = (a, b)" by (cases p)
  have keys: "fst ` set (dict_set d k v) = insert (PStr k) (fst ` set d)" by (rule keys_dict_set)
  show ?case
  proof (cases "a = PStr k")
    case True
    with Cons.prems p show ?thesis by simp
  next
    case False
    with Cons p keys show ?thesis by simp
  qed
qed

lemma str_keys_dict_set:
  assumes "\<forall>p \<in> set d. \<exists>k. fst p = PStr k"
  shows "\<forall>p \<in> set (dict_set d k v). \<exists>k. fst p = PStr k"
proof
  fix p assume "p \<in> set (dict_set d k v)"
  then have "fst p \<in> insert (PStr k) (fst ` set d)"
    using keys_dict_set [of d k v] by (metis imageI)
  with assms show "\<exists>k. fst p = PStr k" by auto
qed

lemma first_event_snoc:
  "first_event k (evs @ [e]) =
     (case first_event k evs of None \<Rightarrow> (if ev_key e = k then Some e else None) | Some x \<Rightarrow> Some x)"
  by (induction evs) (auto simp: first_event_def)

lemma first_event_key: "first_event k evs = Some e \<Longrightarrow> ev_key e = k \<and> e \<in> set evs"
  unfolding first_event_def by (induction evs) (auto split: if_splits)

lemma block_values_snoc:
  "block_values k (evs @ [e]) =
     block_values k evs @ (case e of EvBlock k' v \<Rightarrow> if k' = k then [v] else [] | EvAttr _ _ \<Rightarrow> [])"
  by (induction k evs rule: block_values.induct) (auto split: event.splits)

lemma attr_values_snoc:
  "attr_values k (evs @ [e]) =
     attr_values k evs @ (case e of EvAttr k' v \<Rightarrow> if k' = k then [v] else [] | EvBlock _ _ \<Rightarrow> [])"
  by (induction k evs rule: attr_values.induct) (auto split: event.splits)

lemma block_values_none: "first_event k evs = None \<Longrightarrow> block_values k evs = []"
  unfolding first_event_def
  by (induction k evs rule: block_values.induct) (auto split: if_splits)

lemma attr_values_none: "first_event k evs = None \<Longrightarrow> attr_values k evs = []"
  unfolding first_event_def
  by (induction k evs rule: attr_values.induct) (auto split: if_splits)

lemma warnings_after_snoc:
  "warnings_after seen (es @ [e]) = warnings_after seen es @ event_warning (seen @ es) e"
  by (induction es arbitrary: seen) simp_all

lemma expected_warnings_snoc:
  "expected_warnings (evs @ [e]) = expected_warnings evs @ event_warning evs e"
  by (simp add: expected_warnings_def warnings_after_snoc)

lemma expected_warnings_Nil: "expected_warnings [] = []"
  by (simp add: expected_warnings_def)

lemma body_inv_init: "body_inv \<lparr>result = [], attributes = {}, warnings = []\<rparr> []"
  by (simp add: body_inv_def dict_get_def expected_value_def first_event_def attr_first_def
      expected_warnings_Nil)

lemma step_attr_new:
  assumes "body_inv s seen" "dict_get (result s) key = None"
  shows "body_inv (s\<lparr>result := dict_set (result s) key v, attributes := insert key (attributes s)\<rparr>)
           (seen @ [EvAttr key v])"
proof -
  from assms have fe: "first_event key seen = None"
    by (auto simp: body_inv_def expected_value_def split: option.splits event.splits)
  show ?thesis
    unfolding body_inv_def
  proof (intro conjI allI)
    fix k
    show "dict_get (result (s\<lparr>result := dict_set (result s) key v, attributes := insert key (attributes s)\<rparr>)) k
          = expected_value k (seen @ [EvAttr key v])"
      using assms(1) fe
      by (auto simp: body_inv_def dict_get_dict_set expected_value_def first_event_snoc
          block_values_snoc split: option.splits event.splits)
  next
    show "attributes (s\<lparr>result := dict_set (result s) key v, attributes := insert key (attributes s)\<rparr>)
          = {k. attr_first k (seen @ [EvAttr key v])}"
      using assms(1) fe
      by (auto simp: body_inv_def attr_first_def first_event_snoc split: option.splits event.splits)
  next
    show "warnings (s\<lparr>result := dict_set (result s) key v, attributes := insert key (attributes s)\<rparr>)
          = expected_warnings (seen @ [EvAttr key v])"
      using assms(1) fe by (simp add: body_inv_def expected_warnings_snoc event_warning_def)
  next
    show "\<forall>p\<in>set (result (s\<lparr>result := dict_set (result s) key v, attributes := insert key (attributes s)\<rparr>)).
            \<exists>k. fst p = PStr k"
      using assms(1) str_keys_dict_set [of "result s" key v] by (simp add: body_inv_def)
  next
    show "distinct (map fst (result (s\<lparr>result := dict_set (result s) key v, attributes := insert key (attributes s)\<rparr>)))"
      using assms(1) by (simp add: body_inv_def distinct_dict_set)
  qed
qed

lemma step_attr_dup:
  assumes "body_inv s seen" "dict_get (result s) key = Some x"
  shows "body_inv (s\<lparr>warnings := warnings s @ [attribute_warning key]\<rparr>) (seen @ [EvAttr key v])"
proof -
  from assms obtain e where fe: "first_event key seen = Some e"
    by (auto simp: body_inv_def expected_value_def split: option.splits)
  have ev: "\<And>k. expected_value k (seen @ [EvAttr key v]) = expected_value k seen"
    using fe by (auto simp: expected_value_def first_event_snoc block_values_snoc
        split: option.splits event.splits)
  have af: "\<And>k. attr_first k (seen @ [EvAttr key v]) = attr_first k seen"
    using fe by (auto simp: attr_first_def first_event_snoc split: option.splits event.splits)
  have "event_warning seen (EvAttr key v) = [attribute_warning key]"
    using fe by (simp add: event_warning_def)
  with assms(1) ev af show ?thesis
    by (simp add: body_inv_def expected_warnings_snoc)
qed

lemma step_block_new:
  assumes "body_inv s seen" "dict_get (result s) key = None"
  shows "body_inv (s\<lparr>result := dict_set (result s) key (PList [v])\<rparr>) (seen @ [EvBlock key v])"
proof -
  from assms have fe: "first_event key seen = None"
    by (auto simp: body_inv_def expected_value_def split: option.splits event.splits)
  have ev: "\<And>k. expected_value k (seen @ [EvBlock key v]) =
              (if k = key then Some (PList [v]) else expected_value k seen)"
    using fe by (auto simp: expected_value_def first_event_snoc block_values_snoc
        block_values_none split: option.splits event.splits)
  have af: "\<And>k. attr_first k (seen @ [EvBlock key v]) = attr_first k seen"
    using fe by (auto simp: attr_first_def first_event_snoc split: option.splits event.splits)
  have "event_warning seen (EvBlock key v) = []"
    using fe by (simp add: event_warning_def attr_first_def)
  with assms(1) ev af str_keys_dict_set [of "result s" key "PList [v]"] show ?thesis
    by (simp add: body_inv_def expected_warnings_snoc dict_get_dict_set distinct_dict_set)
qed

lemma step_block_dropped:
  assumes "body_inv s seen" "key \<in> attributes s"
  shows "body_inv (s\<lparr>warnings := warnings s @ [block_warning key]\<rparr>) (seen @ [EvBlock key v])"
proof -
  from assms have a: "attr_first key seen" by (simp add: body_inv_def)
  then obtain e where fe: "first_event key seen = Some e" "is_attr e"
    by (auto simp: attr_first_def split: option.splits event.splits)
  have ev: "\<And>k. expected_value k (seen @ [EvBlock key v]) = expected_value k seen"
    using fe by (auto simp: expected_value_def first_event_snoc block_values_snoc
        split: option.splits event.splits)
  have af: "\<And>k. attr_first k (seen @ [EvBlock key v]) = attr_first k seen"
    using fe by (auto simp: attr_first_def first_event_snoc split: option.splits event.splits)
  have "event_warning seen (EvBlock key v) = [block_warning key]"
    using a by (simp add: event_warning_def)
  with assms(1) ev af show ?thesis
    by (simp add: body_inv_def expected_warnings_snoc)
qed

lemma step_block_append:
  assumes "body_inv s seen" "dict_get (result s) key = Some x" "key \<notin> attributes s"
  shows "\<exists>xs. x = PList xs \<and>
           body_inv (s\<lparr>result := dict_set (result s) key (PList (xs @ [v]))\<rparr>) (seen @ [EvBlock key v])"
proof -
  from assms have na: "\<not> attr_first key seen" by (simp add: body_inv_def)
  from assms have "expected_value key seen = Some x" by (simp add: body_inv_def)
  with na obtain k' v' where fe: "first_event key seen = Some (EvBlock k' v')"
    and x: "x = PList (block_values key seen)"
    by (auto simp: expected_value_def attr_first_def split: option.splits event.splits)
  have ev: "\<And>k. expected_value k (seen @ [EvBlock key v]) =
              (if k = key then Some (PList (block_values key seen @ [v])) else expected_value k seen)"
    using fe by (auto simp: expected_value_def first_event_snoc block_values_snoc
        split: option.splits event.splits)
  have af: "\<And>k. attr_first k (seen @ [EvBlock key v]) = attr_first k seen"
    using fe by (auto simp: attr_first_def first_event_snoc split: option.splits event.splits)
  have "event_warning seen (EvBlock key v) = []"
    using na by (simp add: event_warning_def)
  with assms(1) ev af str_keys_dict_set [of "result s" key "PList (block_values key seen @ [v])"]
  have "body_inv (s\<lparr>result := dict_set (result s) key (PList (block_values key seen @ [v]))\<rparr>)
          (seen @ [EvBlock key v])"
    by (simp add: body_inv_def expected_warnings_snoc dict_get_dict_set distinct_dict_set)
  with x show ?thesis by blast
qed

lemma body_items_inv:
  "body_inv s seen \<Longrightarrow>
     \<exists>s'. body_items rp items s = Inr s' \<and>
          body_inv s' (seen @ map (\<lambda>(k, v). EvBlock (py_str rp k) v) items)"
proof (induction items arbitrary: s seen)
  case Nil
  then show ?case by simp
next
  case (Cons p items)
  obtain k v where p: "p = (k, v)" by (cases p)
  let ?key = "py_str rp k"
  let ?e = "EvBlock ?key v"
  have app: "seen @ map (\<lambda>(k, v). EvBlock (py_str rp k) v) (p # items)
             = (seen @ [?e]) @ map (\<lambda>(k, v). EvBlock (py_str rp k) v) items"
    using p by simp
  show ?case
  proof (cases "dict_get (result s) ?key")
    case None
    from step_block_new [OF Cons.prems None, of v]
    have "body_inv (s\<lparr>result := dict_set (result s) ?key (PList [v])\<rparr>) (seen @ [?e])" .
    from Cons.IH [OF this] show ?thesis
      unfolding app using p None by (simp add: Let_def)
  next
    case (Some x)
    show ?thesis
    proof (cases "?key \<in> attributes s")
      case True
      from step_block_dropped [OF Cons.prems True, of v]
      have "body_inv (s\<lparr>warnings := warnings s @ [block_warning ?key]\<rparr>) (seen @ [?e])" .
      from Cons.IH [OF this] show ?thesis
        unfolding app using p Some True by (simp add: Let_def)
    next
      case False
      from step_block_append [OF Cons.prems Some False, of v]
      obtain xs where xs: "x = PList xs"
        "body_inv (s\<lparr>result := dict_set (result s) ?key (PList (xs @ [v]))\<rparr>) (seen @ [?e])"
        by blast
      from Cons.IH [OF xs(2)] show ?thesis
        unfolding app using p Some False xs(1) by (simp add: Let_def)
    qed
  qed
qed

lemma body_loop_inv:
  "\<forall>a \<in> set args. is_body_child a \<Longrightarrow> body_inv s seen \<Longrightarrow>
     \<exists>s'. body_loop rp args s = Inr s' \<and>
          body_inv s' (seen @ concat (map (child_events rp) args))"
proof (induction args arbitrary: s seen)
  case Nil
  then show ?case by simp
next
  case (Cons a args)
  from Cons.prems(1) have rest: "\<forall>a \<in> set args. is_body_child a" by simp
  from Cons.prems(1) have "is_body_child a" by simp
  then consider (attr) key v where "a = PAttribute key v" | (blk) items where "a = PDict items"
    by (cases a) auto
  then show ?case
  proof cases
    case attr
    show ?thesis
    proof (cases "dict_get (result s) key")
      case None
      from step_attr_new [OF Cons.prems(2) None, of v]
      have "body_inv (s\<lparr>result := dict_set (result s) key v,
                         attributes := insert key (attributes s)\<rparr>) (seen @ [EvAttr key v])" .
      from Cons.IH [OF rest this] show ?thesis using attr None by simp
    next
      case (Some x)
      from step_attr_dup [OF Cons.prems(2) Some, of v]
      have "body_inv (s\<lparr>warnings := warnings s @ [attribute_warning key]\<rparr>) (seen @ [EvAttr key v])" .
      from Cons.IH [OF rest this] show ?thesis using attr Some by simp
    qed
  next
    case blk
    from body_items_inv [OF Cons.prems(2), of rp items]
    obtain s1 where s1: "body_items rp items s = Inr s1"
      "body_inv s1 (seen @ map (\<lambda>(k, v). EvBlock (py_str rp k) v) items)" by blast
    from Cons.IH [OF rest s1(2)] show ?thesis using blk s1(1) by simp
  qed
qed

lemma body_characterisation:
  assumes "\<forall>a \<in> set (strip_new_line_tokens args). is_body_child a"
  shows "\<exists>res. body rp args = Inr (PDict res, expected_warnings (body_events rp args))
           \<and> (\<forall>k. dict_get res k = expected_value k (body_events rp args))
           \<and> (\<forall>p \<in> set res. \<exists>k. fst p = PStr k)
           \<and> distinct (map fst res)"
proof -
  from body_loop_inv [OF assms body_inv_init, of rp]
  obtain s' where s': "body_loop rp (strip_new_line_tokens args)
        \<lparr>result = [], attributes = {}, warnings = []\<rparr> = Inr s'"
    "body_inv s' (body_events rp args)"
    by (auto simp: body_events_def)
  then show ?thesis by (auto simp: body_def body_inv_def)
qed

section \<open>Facts about the warnings and the values of a body\<close>

lemma attribute_warning_inj [simp]: "attribute_warning k = attribute_warning k' \<longleftrightarrow> k = k'"
  by (simp add: attribute_warning_def)

lemma block_warning_inj [simp]: "block_warning k = block_warning k' \<longleftrightarrow> k = k'"
  by (simp add: block_warning_def)

lemma warning_kinds_differ [simp]:
  "attribute_warning k \<noteq> block_warning k'" "block_warning k' \<noteq> attribute_warning k"
proof -
  have "rev (attribute_warning k) \<noteq> rev (block_warning k')"
    by (simp add: attribute_warning_def block_warning_def)
  then show "attribute_warning k \<noteq> block_warning k'" by auto
  then show "block_warning k' \<noteq> attribute_warning k" by auto
qed

lemma first_attr_values:
  "first_event k evs = Some (EvAttr k' v) \<Longrightarrow> attr_values k evs \<noteq> [] \<and> hd (attr_values k evs) = v"
  unfolding first_event_def
  by (induction k evs rule: attr_values.induct) (auto split: if_splits)

lemma first_block_values:
  "first_event k evs = Some (EvBlock k' v) \<Longrightarrow> block_values k evs \<noteq> [] \<and> hd (block_values k evs) = v"
  unfolding first_event_def
  by (induction k evs rule: block_values.induct) (auto split: if_splits)

lemma attr_first_snoc:
  "attr_first k (evs @ [e]) =
     (attr_first k evs \<or> (first_event k evs = None \<and> ev_key e = k \<and> is_attr e))"
  by (cases e) (auto simp: attr_first_def first_event_snoc split: option.splits event.splits)

lemma count_attribute_warning:
  "count_list (expected_warnings evs) (attribute_warning k) =
     length (attr_values k evs) - (if attr_first k evs then 1 else 0)"
proof (induction evs rule: rev_induct)
  case Nil
  then show ?case by (simp add: expected_warnings_def)
next
  case (snoc e evs)
  show ?case
  proof (cases e)
    case (EvAttr key v)
    show ?thesis
    proof (cases "first_event k evs")
      case None
      then have "\<not> attr_first k evs" by (simp add: attr_first_def)
      with snoc EvAttr None show ?thesis
        by (auto simp: expected_warnings_snoc event_warning_def attr_values_snoc attr_first_snoc
            attr_values_none)
    next
      case (Some x)
      show ?thesis
      proof (cases x)
        case (EvAttr k' v')
        with Some have "attr_values k evs \<noteq> []" "attr_first k evs"
          using first_attr_values by (auto simp: attr_first_def)
        then have "0 < length (attr_values k evs)" by simp
        with snoc Some \<open>attr_first k evs\<close> \<open>e = EvAttr key v\<close> show ?thesis
          by (auto simp: expected_warnings_snoc event_warning_def attr_values_snoc attr_first_snoc)
      next
        case (EvBlock k' v')
        with Some have "\<not> attr_first k evs" by (simp add: attr_first_def)
        with snoc Some \<open>e = EvAttr key v\<close> show ?thesis
          by (auto simp: expected_warnings_snoc event_warning_def attr_values_snoc attr_first_snoc)
      qed
    qed
  next
    case (EvBlock key v)
    with snoc show ?thesis
      by (auto simp: expected_warnings_snoc event_warning_def attr_values_snoc attr_first_snoc)
  qed
qed

lemma count_block_warning:
  "count_list (expected_warnings evs) (block_warning k) =
     (if attr_first k evs then length (block_values k evs) else 0)"
proof (induction evs rule: rev_induct)
  case Nil
  then show ?case by (simp add: expected_warnings_def attr_first_def first_event_def)
next
  case (snoc e evs)
  show ?case
  proof (cases e)
    case (EvAttr key v)
    with snoc show ?thesis
      by (auto simp: expected_warnings_snoc event_warning_def block_values_snoc attr_first_snoc
          block_values_none)
  next
    case (EvBlock key v)
    with snoc show ?thesis
      by (auto simp: expected_warnings_snoc event_warning_def block_values_snoc attr_first_snoc)
  qed
qed

lemma body_result:
  assumes "list_all is_body_child (strip_new_line_tokens args)"
  shows "\<exists>res. body rp args = Inr (PDict res, expected_warnings (body_events rp args))
           \<and> (\<forall>k. dict_get res k = expected_value k (body_events rp args))
           \<and> (\<forall>p \<in> set res. \<exists>k. fst p = PStr k)
           \<and> distinct (map fst res)"
  using assms body_characterisation [of args rp] by (simp add: list_all_iff)

lemma expected_value_attr_first:
  "attr_first k evs \<Longrightarrow> expected_value k evs = Some (hd (attr_values k evs))"
  using first_attr_values [of k evs]
  by (auto simp: attr_first_def expected_value_def split: option.splits event.splits)

lemma expected_value_block_first:
  "block_first k evs \<Longrightarrow> expected_value k evs = Some (PList (block_values k evs))"
  by (auto simp: block_first_def expected_value_def split: option.splits event.splits)

lemma expected_value_absent:
  "\<not> attr_first k evs \<Longrightarrow> \<not> block_first k evs \<Longrightarrow> expected_value k evs = None"
  by (auto simp: attr_first_def block_first_def expected_value_def
      split: option.splits event.splits)

lemma block_first_not_attr_first: "block_first k evs \<Longrightarrow> \<not> attr_first k evs"
  by (auto simp: attr_first_def block_first_def split: option.splits event.splits)

lemma first_event_split:
  assumes "\<forall>e \<in> set pre. ev_key e \<noteq> ev_key x"
  shows "first_event (ev_key x) (pre @ x # post) = Some x"
  using assms unfolding first_event_def by (induction pre) auto

lemma first_event_None_iff: "first_event k evs = None \<longleftrightarrow> k \<notin> ev_key ` set evs"
  unfolding first_event_def by (auto simp: find_None_iff)

lemma expected_value_None_iff: "expected_value k evs = None \<longleftrightarrow> k \<notin> ev_key ` set evs"
  using first_event_None_iff [of k evs]
  by (auto simp: expected_value_def split: option.splits event.splits)

lemma body_events_snoc_block:
  "body_events rp (args @ [PDict [(PStr k, v)]]) = body_events rp args @ [EvBlock k v]"
  by (simp add: body_events_def strip_new_line_tokens_def py_str_def)

lemma strip_snoc_block:
  "list_all is_body_child (strip_new_line_tokens args) \<Longrightarrow>
     list_all is_body_child (strip_new_line_tokens (args @ [PDict items]))"
  by (simp add: strip_new_line_tokens_def)

section \<open>Claims about bodies\<close>

text \<open>
  C4.  In the map that \<^verbatim>\<open>body\<close> returns for children that are attributes and blocks, the
  kind of the first entry with a key decides the key.  When it is an attribute, the key
  holds that attribute's value and every block entry with the key is dropped with one
  \<^verbatim>\<open>already defined in block\<close> warning each.  When it is a block, the key holds the list
  of the block values and every attribute with the key is dropped with one
  \<^verbatim>\<open>already defined in attribute\<close> warning each.  A key with no entry is absent, and no
  key is of both kinds.
\<close>

theorem body_first_kind_wins:
  assumes "list_all is_body_child (strip_new_line_tokens args)"
  shows "\<exists>res ws. body rp args = Inr (PDict res, ws)
     \<and> (\<forall>k. (attr_first k (body_events rp args) \<longrightarrow>
               dict_get res k = Some (hd (attr_values k (body_events rp args)))
               \<and> count_list ws (block_warning k) = length (block_values k (body_events rp args)))
          \<and> (block_first k (body_events rp args) \<longrightarrow>
               dict_get res k = Some (PList (block_values k (body_events rp args)))
               \<and> count_list ws (attribute_warning k) = length (attr_values k (body_events rp args)))
          \<and> (\<not> attr_first k (body_events rp args) \<and> \<not> block_first k (body_events rp args) \<longrightarrow>
               dict_get res k = None)
          \<and> \<not> (attr_first k (body_events rp args) \<and> block_first k (body_events rp args)))"
proof -
  let ?evs = "body_events rp args"
  from body_result [OF assms, of rp] obtain res where
    res: "body rp args = Inr (PDict res, expected_warnings ?evs)"
    and val: "\<And>k. dict_get res k = expected_value k ?evs" by blast
  have "\<forall>k. (attr_first k ?evs \<longrightarrow>
               dict_get res k = Some (hd (attr_values k ?evs))
               \<and> count_list (expected_warnings ?evs) (block_warning k) = length (block_values k ?evs))
          \<and> (block_first k ?evs \<longrightarrow>
               dict_get res k = Some (PList (block_values k ?evs))
               \<and> count_list (expected_warnings ?evs) (attribute_warning k) = length (attr_values k ?evs))
          \<and> (\<not> attr_first k ?evs \<and> \<not> block_first k ?evs \<longrightarrow> dict_get res k = None)
          \<and> \<not> (attr_first k ?evs \<and> block_first k ?evs)"
    using val
    by (auto simp: expected_value_attr_first expected_value_block_first expected_value_absent
        count_block_warning count_attribute_warning dest: block_first_not_attr_first)
  with res show ?thesis by blast
qed

lemma example_body_events:
  "body_events repr_unused example_body =
     [EvAttr ''a'' (PInt 1), EvBlock ''b'' (PDict []), EvBlock ''b'' (PInt 3),
      EvAttr ''a'' (PInt 2), EvBlock ''a'' (PInt 3), EvAttr ''b'' PNone]"
  by (simp add: body_events_def example_body_def strip_new_line_tokens_def newline_def py_str_def)

lemma example_body_result:
  "body repr_unused example_body =
     Inr (PDict [(PStr ''a'', PInt 1), (PStr ''b'', PList [PDict [], PInt 3])],
          [''a already defined in attribute, ignoring'',
           ''a already defined in block, ignoring'',
           ''b already defined in attribute, ignoring''])"
  by (simp add: body_def example_body_def strip_new_line_tokens_def newline_def py_str_def
      dict_get_def attribute_warning_def block_warning_def Let_def)

theorem body_first_kind_wins_witness:
  "list_all is_body_child (strip_new_line_tokens example_body)
   \<and> attr_first ''a'' (body_events repr_unused example_body)
   \<and> block_first ''b'' (body_events repr_unused example_body)
   \<and> body repr_unused example_body =
     Inr (PDict [(PStr ''a'', PInt 1), (PStr ''b'', PList [PDict [], PInt 3])],
          [''a already defined in attribute, ignoring'',
           ''a already defined in block, ignoring'',
           ''b already defined in attribute, ignoring''])"
  using body_first_kind_wins [of example_body repr_unused]
  by (simp add: example_body_events example_body_result attr_first_def block_first_def
      first_event_def)
    (simp add: example_body_def strip_new_line_tokens_def newline_def)

text \<open>
  C3, as the code has it.  When the first entry with a key is an attribute (no block
  entry with that key comes before the first declaration), \<^verbatim>\<open>body\<close> returns a result, the
  key holds the value of the first declaration, and the number of
  \<^verbatim>\<open>already defined in attribute\<close> warnings naming the key is the number of declarations
  less one.
\<close>

theorem duplicate_attribute_first_wins:
  assumes "list_all is_body_child (strip_new_line_tokens args)"
  shows "\<exists>res ws. body rp args = Inr (PDict res, ws)
     \<and> (\<forall>k. attr_first k (body_events rp args) \<longrightarrow>
            dict_get res k = Some (hd (attr_values k (body_events rp args)))
            \<and> count_list ws (attribute_warning k)
                = length (attr_values k (body_events rp args)) - 1
            \<and> attribute_warning k = k @ '' already defined in attribute, ignoring'')"
proof -
  let ?evs = "body_events rp args"
  from body_result [OF assms, of rp] obtain res where
    res: "body rp args = Inr (PDict res, expected_warnings ?evs)"
    and val: "\<And>k. dict_get res k = expected_value k ?evs" by blast
  have "\<forall>k. attr_first k ?evs \<longrightarrow>
            dict_get res k = Some (hd (attr_values k ?evs))
            \<and> count_list (expected_warnings ?evs) (attribute_warning k)
                = length (attr_values k ?evs) - 1
            \<and> attribute_warning k = k @ '' already defined in attribute, ignoring''"
    using val
    by (simp add: expected_value_attr_first count_attribute_warning)
      (simp add: attribute_warning_def)
  with res show ?thesis by blast
qed

theorem duplicate_attribute_first_wins_witness:
  "list_all is_body_child (strip_new_line_tokens example_body)
   \<and> attr_first ''a'' (body_events repr_unused example_body)
   \<and> attr_values ''a'' (body_events repr_unused example_body) = [PInt 1, PInt 2]
   \<and> body repr_unused example_body =
     Inr (PDict [(PStr ''a'', PInt 1), (PStr ''b'', PList [PDict [], PInt 3])],
          [''a already defined in attribute, ignoring'',
           ''a already defined in block, ignoring'',
           ''b already defined in attribute, ignoring''])"
  using duplicate_attribute_first_wins [of example_body repr_unused]
  by (simp add: example_body_events example_body_result attr_first_def first_event_def)
    (simp add: example_body_def strip_new_line_tokens_def newline_def)

text \<open>
  C3, as the claim states it, fails when a block with the key comes first: the key keeps
  the list of the block, not the value of the first declaration, and both declarations
  are warned about.
\<close>

theorem duplicate_attribute_after_block_counterexample:
  "body repr_unused
     [PDict [(PStr ''k'', PDict [])], PAttribute ''k'' (PInt 1), PAttribute ''k'' (PInt 2)]
   = Inr (PDict [(PStr ''k'', PList [PDict []])],
          [''k already defined in attribute, ignoring'',
           ''k already defined in attribute, ignoring''])"
  by (simp add: body_def strip_new_line_tokens_def newline_def py_str_def
      dict_get_def attribute_warning_def block_warning_def Let_def)

text \<open>
  C1, as the code has it.  For every key whose first entry is a block, the key holds the
  list of the values of all block entries with that key, in source order.  One more
  block \<open>{key: v}\<close> at the end gives the one-element list \<open>[v]\<close> when the key was absent,
  and appends \<open>v\<close> to the list when the key was first introduced by a block.
\<close>

theorem blocks_collected_in_order:
  assumes "list_all is_body_child (strip_new_line_tokens args)"
  shows "\<exists>res ws. body rp args = Inr (PDict res, ws)
     \<and> (\<forall>k. block_first k (body_events rp args) \<longrightarrow>
            dict_get res k = Some (PList (block_values k (body_events rp args))))
     \<and> (\<exists>res' ws'. body rp (args @ [PDict [(PStr key, v)]]) = Inr (PDict res', ws')
          \<and> (dict_get res key = None \<longrightarrow> dict_get res' key = Some (PList [v]))
          \<and> (\<forall>xs. block_first key (body_events rp args) \<and> dict_get res key = Some (PList xs) \<longrightarrow>
                 dict_get res' key = Some (PList (xs @ [v]))))"
proof -
  let ?evs = "body_events rp args"
  let ?args' = "args @ [PDict [(PStr key, v)]]"
  from body_result [OF assms, of rp] obtain res where
    res: "body rp args = Inr (PDict res, expected_warnings ?evs)"
    and val: "\<And>k. dict_get res k = expected_value k ?evs" by blast
  have "list_all is_body_child (strip_new_line_tokens ?args')"
    using assms by (rule strip_snoc_block)
  from body_result [OF this, of rp] obtain res' where
    res': "body rp ?args' = Inr (PDict res', expected_warnings (?evs @ [EvBlock key v]))"
    and val': "\<And>k. dict_get res' k = expected_value k (?evs @ [EvBlock key v])"
    by (auto simp: body_events_snoc_block)
  have a: "\<forall>k. block_first k ?evs \<longrightarrow> dict_get res k = Some (PList (block_values k ?evs))"
    using val by (simp add: expected_value_block_first)
  have b: "dict_get res key = None \<longrightarrow> dict_get res' key = Some (PList [v])"
    using val [of key] val' [of key]
    by (auto simp: expected_value_def first_event_snoc block_values_snoc block_values_none
        split: option.splits event.splits)
  have c: "\<forall>xs. block_first key ?evs \<and> dict_get res key = Some (PList xs) \<longrightarrow>
                 dict_get res' key = Some (PList (xs @ [v]))"
    using val [of key] val' [of key]
    by (auto simp: expected_value_def block_first_def first_event_snoc block_values_snoc
        split: option.splits event.splits)
  have inner: "\<exists>res' ws'. body rp ?args' = Inr (PDict res', ws')
          \<and> (dict_get res key = None \<longrightarrow> dict_get res' key = Some (PList [v]))
          \<and> (\<forall>xs. block_first key ?evs \<and> dict_get res key = Some (PList xs) \<longrightarrow>
                 dict_get res' key = Some (PList (xs @ [v])))"
  proof (intro exI conjI)
    show "body rp ?args' = Inr (PDict res', expected_warnings (?evs @ [EvBlock key v]))"
      by (rule res')
    show "dict_get res key = None \<longrightarrow> dict_get res' key = Some (PList [v])" by (rule b)
    show "\<forall>xs. block_first key ?evs \<and> dict_get res key = Some (PList xs) \<longrightarrow>
                 dict_get res' key = Some (PList (xs @ [v]))" by (rule c)
  qed
  show ?thesis
  proof (rule exI [of _ res], rule exI [of _ "expected_warnings ?evs"], intro conjI)
    show "body rp args = Inr (PDict res, expected_warnings ?evs)" by (rule res)
    show "\<forall>k. block_first k ?evs \<longrightarrow> dict_get res k = Some (PList (block_values k ?evs))"
      by (rule a)
    show "\<exists>res' ws'. body rp ?args' = Inr (PDict res', ws')
          \<and> (dict_get res key = None \<longrightarrow> dict_get res' key = Some (PList [v]))
          \<and> (\<forall>xs. block_first key ?evs \<and> dict_get res key = Some (PList xs) \<longrightarrow>
                 dict_get res' key = Some (PList (xs @ [v])))" by (rule inner)
  qed
qed

theorem blocks_collected_in_order_witness:
  "list_all is_body_child (strip_new_line_tokens example_body)
   \<and> block_first ''b'' (body_events repr_unused example_body)
   \<and> block_values ''b'' (body_events repr_unused example_body) = [PDict [], PInt 3]
   \<and> body repr_unused example_body =
     Inr (PDict [(PStr ''a'', PInt 1), (PStr ''b'', PList [PDict [], PInt 3])],
          [''a already defined in attribute, ignoring'',
           ''a already defined in block, ignoring'',
           ''b already defined in attribute, ignoring''])
   \<and> body repr_unused (example_body @ [PDict [(PStr ''b'', PInt 4)]]) =
     Inr (PDict [(PStr ''a'', PInt 1), (PStr ''b'', PList [PDict [], PInt 3, PInt 4])],
          [''a already defined in attribute, ignoring'',
           ''a already defined in block, ignoring'',
           ''b already defined in attribute, ignoring''])"
  using blocks_collected_in_order [of example_body repr_unused "''b''" "PInt 4"]
  by (simp add: example_body_events example_body_result block_first_def first_event_def)
    (simp add: body_def example_body_def strip_new_line_tokens_def newline_def py_str_def
      dict_get_def attribute_warning_def block_warning_def Let_def)

text \<open>
  C1, as the claim states it, fails when an attribute has taken the key: the two blocks
  are not collected, the key keeps the attribute's value.
\<close>

theorem block_after_attribute_counterexample:
  "body repr_unused
     [PAttribute ''k'' (PInt 1), PDict [(PStr ''k'', PDict [])], PDict [(PStr ''k'', PDict [])]]
   = Inr (PDict [(PStr ''k'', PInt 1)],
          [''k already defined in block, ignoring'',
           ''k already defined in block, ignoring''])"
  by (simp add: body_def strip_new_line_tokens_def newline_def py_str_def
      dict_get_def attribute_warning_def block_warning_def Let_def)

lemma dict_keys_events:
  assumes val: "\<And>k. dict_get res k = expected_value k evs"
    and str: "\<forall>p \<in> set res. \<exists>k. fst p = PStr k"
  shows "fst ` set res = PStr ` ev_key ` set evs"
proof (intro set_eqI iffI)
  fix x assume "x \<in> fst ` set res"
  moreover from this str obtain k where k: "x = PStr k" by auto
  ultimately have "map_of res (PStr k) \<noteq> None" by (simp add: map_of_eq_None_iff)
  then have "expected_value k evs \<noteq> None" using val [of k] by (simp add: dict_get_def)
  then have "k \<in> ev_key ` set evs" by (simp add: expected_value_None_iff)
  with k show "x \<in> PStr ` ev_key ` set evs" by simp
next
  fix x assume "x \<in> PStr ` ev_key ` set evs"
  then obtain k where k: "x = PStr k" "k \<in> ev_key ` set evs" by auto
  then have "expected_value k evs \<noteq> None" by (simp add: expected_value_None_iff)
  then have "map_of res (PStr k) \<noteq> None" using val [of k] by (simp add: dict_get_def)
  with k show "x \<in> fst ` set res" by (simp add: map_of_eq_None_iff)
qed

text \<open>
  C2, as the code has it.  In a body whose attributes have pairwise distinct keys, every
  attribute that no block entry with the same key precedes is bound to its value, whatever
  blocks follow it; a key first introduced by a block holds the list of block values; and
  the keys of the map are the keys of all entries, attributes and blocks.
\<close>

theorem distinct_attributes_bound:
  assumes "list_all is_body_child (strip_new_line_tokens args)"
    and "distinct (map ev_key (filter is_attr (body_events rp args)))"
  shows "\<exists>res ws. body rp args = Inr (PDict res, ws)
     \<and> (\<forall>pre k v post.
           body_events rp args = pre @ EvAttr k v # post
           \<and> (\<forall>e \<in> set pre. \<not> is_attr e \<longrightarrow> ev_key e \<noteq> k) \<longrightarrow>
           dict_get res k = Some v)
     \<and> (\<forall>k. block_first k (body_events rp args) \<longrightarrow>
            dict_get res k = Some (PList (block_values k (body_events rp args))))
     \<and> fst ` set res = PStr ` ev_key ` set (body_events rp args)"
proof -
  let ?evs = "body_events rp args"
  from body_result [OF assms(1), of rp] obtain res where
    res: "body rp args = Inr (PDict res, expected_warnings ?evs)"
    and val: "\<And>k. dict_get res k = expected_value k ?evs"
    and str: "\<forall>p \<in> set res. \<exists>k. fst p = PStr k" by blast
  have a: "\<forall>pre k v post.
           ?evs = pre @ EvAttr k v # post
           \<and> (\<forall>e \<in> set pre. \<not> is_attr e \<longrightarrow> ev_key e \<noteq> k) \<longrightarrow>
           dict_get res k = Some v"
  proof (intro allI impI)
    fix pre k v post
    assume h: "?evs = pre @ EvAttr k v # post
           \<and> (\<forall>e \<in> set pre. \<not> is_attr e \<longrightarrow> ev_key e \<noteq> k)"
    with assms(2) have "k \<notin> ev_key ` set (filter is_attr pre)" by auto
    with h have "\<forall>e \<in> set pre. ev_key e \<noteq> ev_key (EvAttr k v)" by auto
    from first_event_split [OF this, of post] h
    have "first_event k ?evs = Some (EvAttr k v)" by simp
    then show "dict_get res k = Some v" using val [of k] by (simp add: expected_value_def)
  qed
  have b: "\<forall>k. block_first k ?evs \<longrightarrow> dict_get res k = Some (PList (block_values k ?evs))"
    using val by (simp add: expected_value_block_first)
  from res a b dict_keys_events [of res ?evs, OF val str] show ?thesis by blast
qed

theorem distinct_attributes_bound_witness:
  "list_all is_body_child (strip_new_line_tokens example_distinct)
   \<and> distinct (map ev_key (filter is_attr (body_events repr_unused example_distinct)))
   \<and> body_events repr_unused example_distinct =
       [EvBlock ''x'' (PDict [])] @ EvAttr ''a'' (PInt 1) #
       [EvBlock ''a'' (PInt 0), EvBlock ''x'' (PInt 5), EvAttr ''b'' (PInt 2), EvBlock ''b'' (PInt 7)]
   \<and> body repr_unused example_distinct =
     Inr (PDict [(PStr ''x'', PList [PDict [], PInt 5]), (PStr ''a'', PInt 1), (PStr ''b'', PInt 2)],
          [''a already defined in block, ignoring'', ''b already defined in block, ignoring''])"
  using distinct_attributes_bound [of example_distinct repr_unused]
  by (simp add: body_events_def body_def example_distinct_def strip_new_line_tokens_def
      newline_def py_str_def dict_get_def attribute_warning_def block_warning_def Let_def)

text \<open>
  C2, as the claim states it, fails: with a block \<open>b\<close> before the attribute \<open>b\<close>, the key
  \<open>b\<close> holds the block list and not the attribute's value, and the block \<open>c\<close> adds a key
  that is not an attribute key.
\<close>

theorem attribute_after_block_counterexample:
  "body repr_unused
     [PDict [(PStr ''b'', PDict [])], PAttribute ''b'' (PInt 1), PAttribute ''a'' (PInt 2),
      PDict [(PStr ''c'', PDict [])]]
   = Inr (PDict [(PStr ''b'', PList [PDict []]), (PStr ''a'', PInt 2),
                 (PStr ''c'', PList [PDict []])],
          [''b already defined in attribute, ignoring''])"
  by (simp add: body_def strip_new_line_tokens_def newline_def py_str_def
      dict_get_def attribute_warning_def block_warning_def Let_def)

end
